theory Spec2Isabelle
  imports Complex_Main "HOL-Library.Word" "HOL-Library.Multiset" "HOL-Library.List_Lexorder"
    "HOL-Library.Product_Lexorder" "HOL-Library.Log_Nat"
begin

unbundle bit_operations_syntax

section \<open>Tutorial::PlanVisit: data model\<close>

text \<open>
  The task of \<^verbatim>\<open>Tutorial/PlanVisit\<close> plans a closed tour over the configured waypoints.
  Coordinates and matrix entries, \<^verbatim>\<open>double\<close> in the source, are \<^typ>\<open>real\<close> numbers
  wherever the task only stores, copies or passes them on: a real stands for the finite
  double of that value. The task's own arithmetic on doubles, the sum and the comparison
  in the loop of \<^verbatim>\<open>TSP\<close>, is modelled in IEEE 754 double precision, with rounding,
  overflow to infinity and NaN. The conversion to radians and the geodesic range belong to
  the DUNE core and are functions on the reals here.

  Loop counters are \<^verbatim>\<open>unsigned int\<close> in the source and \<^typ>\<open>nat\<close> here; they agree
  as long as the coordinate vector has fewer than \<open>2^32 - 1\<close> entries. The one place
  where unsigned arithmetic wraps for an ordinary input, \<^verbatim>\<open>indices.size() - 1\<close> in
  \<^verbatim>\<open>createPlan\<close>, is modelled on a 64-bit word (\<^verbatim>\<open>size_t\<close>).

  \<^verbatim>\<open>operator[]\<close> of \<^verbatim>\<open>std::vector\<close> is unchecked: an index out of range is undefined
  behaviour. The model makes it a branch: every read and write returns \<open>Inl OutOfBounds\<close>
  there.
\<close>

datatype error = OutOfBounds

type_synonym weights = "real list list"

definition elem_at :: "'a list \<Rightarrow> nat \<Rightarrow> error + 'a" where
  "elem_at xs i = (if i < length xs then Inr (xs ! i) else Inl OutOfBounds)"

definition elem_at2 :: "'a list list \<Rightarrow> nat \<Rightarrow> nat \<Rightarrow> error + 'a" where
  "elem_at2 w i j = (case elem_at w i of Inl e \<Rightarrow> Inl e | Inr row \<Rightarrow> elem_at row j)"

definition store_at2 :: "'a list list \<Rightarrow> nat \<Rightarrow> nat \<Rightarrow> 'a \<Rightarrow> error + 'a list list" where
  "store_at2 w i j v =
     (if i < length w \<and> j < length (w ! i) then Inr (w[i := (w ! i)[j := v]])
      else Inl OutOfBounds)"

text \<open>The IMC messages the task builds: a \<^verbatim>\<open>Goto\<close> maneuver, a plan maneuver wrapping
  it, a transition between two maneuvers, and the plan specification.\<close>

datatype speed_units = SUNITS_METERS_PS | SUNITS_RPM | SUNITS_PERCENTAGE

datatype z_units = Z_NONE | Z_DEPTH | Z_ALTITUDE | Z_HEIGHT

record Goto =
  lat :: real
  lon :: real
  speed :: real
  speed_units :: speed_units
  z :: real
  z_units :: z_units

record PlanManeuver =
  maneuver_id :: string
  data :: Goto

record PlanTransition =
  source_man :: string
  dest_man :: string
  conditions :: string

record PlanSpecification =
  plan_id :: string
  description :: string
  start_man_id :: string
  maneuvers :: "PlanManeuver list"
  transitions :: "PlanTransition list"

text \<open>The operating modes of \<^verbatim>\<open>IMC::VehicleState\<close>; \<^verbatim>\<open>m_vstate\<close> holds one of them.\<close>

datatype op_mode = VS_SERVICE | VS_CALIBRATION | VS_ERROR | VS_MANEUVER | VS_EXTERNAL | VS_BOOT

text \<open>The fields of \<^verbatim>\<open>struct Task\<close>. The random generator \<^verbatim>\<open>m_gen\<close> is not a field of
  the model: the number it draws is an input of the step that sends the plan.\<close>

record Task =
  points_to_visit :: "real list"
  m_vstate :: op_mode
  m_in_mission :: bool
  m_progress :: real
  m_auv_lat :: real
  m_auv_lon :: real
  m_PTV_ok :: bool
  m_plan_sent :: bool
  m_plan_to_run :: PlanSpecification

section \<open>calculateWeights\<close>

text \<open>
  \<^verbatim>\<open>Coordinates::WGS84::getNEBearingAndRange(lat1, lon1, lat2, lon2, &b, &r)\<close> belongs to
  the DUNE core. The functions below take the range \<open>r\<close> it writes as a parameter
  \<open>rng lat1 lon1 lat2 lon2\<close>; the bearing is never read.
\<close>

type_synonym range_fn = "real \<Rightarrow> real \<Rightarrow> real \<Rightarrow> real \<Rightarrow> real"

text \<open>The two reads \<^verbatim>\<open>points_to_visit[i], points_to_visit[i+1]\<close> that every call of
  the range function passes as one coordinate.\<close>

definition read_point :: "real list \<Rightarrow> nat \<Rightarrow> error + real \<times> real" where
  "read_point pts i =
     (case elem_at pts i of
        Inl e \<Rightarrow> Inl e
      | Inr a \<Rightarrow> (case elem_at pts (i + 1) of Inl e \<Rightarrow> Inl e | Inr b \<Rightarrow> Inr (a, b)))"

text \<open>The inner loop \<^verbatim>\<open>for (j = i; j < size; j = j + 2)\<close> of part\_000, lines 216--230.\<close>

function calculateWeights_inner :: "range_fn \<Rightarrow> real list \<Rightarrow> nat \<Rightarrow> nat \<Rightarrow> weights \<Rightarrow> error + weights" where
  "calculateWeights_inner rng pts i j w =
     (if j < length pts then
        (if i = j then
           (case store_at2 w (i div 2 + 1) (j div 2 + 1) 0 of
              Inl e \<Rightarrow> Inl e
            | Inr w1 \<Rightarrow> calculateWeights_inner rng pts i (j + 2) w1)
         else
           (case read_point pts i of
              Inl e \<Rightarrow> Inl e
            | Inr (a, b) \<Rightarrow>
               (case read_point pts j of
                  Inl e \<Rightarrow> Inl e
                | Inr (c, d) \<Rightarrow>
                   (case store_at2 w (i div 2 + 1) (j div 2 + 1) (rng a b c d) of
                      Inl e \<Rightarrow> Inl e
                    | Inr w1 \<Rightarrow>
                       (case store_at2 w1 (j div 2 + 1) (i div 2 + 1) (rng a b c d) of
                          Inl e \<Rightarrow> Inl e
                        | Inr w2 \<Rightarrow> calculateWeights_inner rng pts i (j + 2) w2)))))
      else Inr w)"
  by pat_completeness auto
termination
  by (relation "measure (\<lambda>(rng, pts, i, j, w). length pts - j)") auto

text \<open>The outer loop \<^verbatim>\<open>for (i = 0; i < size; i = i + 2)\<close>, lines 210--231.\<close>

function calculateWeights_outer :: "range_fn \<Rightarrow> real \<Rightarrow> real \<Rightarrow> real list \<Rightarrow> nat \<Rightarrow> weights \<Rightarrow> error + weights" where
  "calculateWeights_outer rng alat alon pts i w =
     (if i < length pts then
        (case read_point pts i of
           Inl e \<Rightarrow> Inl e
         | Inr (a, b) \<Rightarrow>
            (case store_at2 w 0 (i div 2 + 1) (rng alat alon a b) of
               Inl e \<Rightarrow> Inl e
             | Inr w1 \<Rightarrow>
                (case store_at2 w1 (i div 2 + 1) 0 (rng alat alon a b) of
                   Inl e \<Rightarrow> Inl e
                 | Inr w2 \<Rightarrow>
                    (case calculateWeights_inner rng pts i i w2 of
                       Inl e \<Rightarrow> Inl e
                     | Inr w3 \<Rightarrow> calculateWeights_outer rng alat alon pts (i + 2) w3))))
      else Inr w)"
  by pat_completeness auto
termination
  by (relation "measure (\<lambda>(rng, alat, alon, pts, i, w). length pts - i)") auto

definition calculateWeights :: "range_fn \<Rightarrow> Task \<Rightarrow> error + weights" where
  "calculateWeights rng t =
     (let n_points = length (points_to_visit t) div 2 + 1;
          weights = replicate n_points (replicate n_points 0)
      in calculateWeights_outer rng (m_auv_lat t) (m_auv_lon t) (points_to_visit t) 0 weights)"

section \<open>calculateWeights of src/Tutorial/PlanVisit/Task.cpp\<close>

text \<open>
  The variant in \<^verbatim>\<open>src/Tutorial/PlanVisit/Task.cpp\<close> (lines 176--200) writes into a matrix
  that the caller passes by reference, reads the vehicle position from \<^verbatim>\<open>m_lat\<close>,
  \<^verbatim>\<open>m_lon\<close>, and uses the indices \<^verbatim>\<open>i/2\<close>, \<^verbatim>\<open>j/2\<close> where part\_000 uses
  \<^verbatim>\<open>i/2+1\<close>, \<^verbatim>\<open>j/2+1\<close>.
\<close>

function Task_cpp_calculateWeights_inner :: "range_fn \<Rightarrow> real list \<Rightarrow> nat \<Rightarrow> nat \<Rightarrow> weights \<Rightarrow> error + weights" where
  "Task_cpp_calculateWeights_inner rng pts i j w =
     (if j < length pts then
        (if i = j then
           (case store_at2 w (i div 2) (j div 2) 0 of
              Inl e \<Rightarrow> Inl e
            | Inr w1 \<Rightarrow> Task_cpp_calculateWeights_inner rng pts i (j + 2) w1)
         else
           (case read_point pts i of
              Inl e \<Rightarrow> Inl e
            | Inr (a, b) \<Rightarrow>
               (case read_point pts j of
                  Inl e \<Rightarrow> Inl e
                | Inr (c, d) \<Rightarrow>
                   (case store_at2 w (i div 2 + 1) (j div 2) (rng a b c d) of
                      Inl e \<Rightarrow> Inl e
                    | Inr w1 \<Rightarrow>
                       (case store_at2 w1 (j div 2) (i div 2 + 1) (rng a b c d) of
                          Inl e \<Rightarrow> Inl e
                        | Inr w2 \<Rightarrow> Task_cpp_calculateWeights_inner rng pts i (j + 2) w2)))))
      else Inr w)"
  by pat_completeness auto
termination
  by (relation "measure (\<lambda>(rng, pts, i, j, w). length pts - j)") auto

declare Task_cpp_calculateWeights_inner.simps [simp del]

function Task_cpp_calculateWeights_outer :: "range_fn \<Rightarrow> real \<Rightarrow> real \<Rightarrow> real list \<Rightarrow> nat \<Rightarrow> weights \<Rightarrow> error + weights" where
  "Task_cpp_calculateWeights_outer rng m_lat m_lon pts i w =
     (if i < length pts then
        (case read_point pts i of
           Inl e \<Rightarrow> Inl e
         | Inr (a, b) \<Rightarrow>
            (case store_at2 w 0 (i div 2) (rng m_lat m_lon a b) of
               Inl e \<Rightarrow> Inl e
             | Inr w1 \<Rightarrow>
                (case store_at2 w1 (i div 2) 0 (rng m_lat m_lon a b) of
                   Inl e \<Rightarrow> Inl e
                 | Inr w2 \<Rightarrow>
                    (case Task_cpp_calculateWeights_inner rng pts i i w2 of
                       Inl e \<Rightarrow> Inl e
                     | Inr w3 \<Rightarrow> Task_cpp_calculateWeights_outer rng m_lat m_lon pts (i + 2) w3))))
      else Inr w)"
  by pat_completeness auto
termination
  by (relation "measure (\<lambda>(rng, m_lat, m_lon, pts, i, w). length pts - i)") auto

declare Task_cpp_calculateWeights_outer.simps [simp del]

definition Task_cpp_calculateWeights :: "range_fn \<Rightarrow> real \<Rightarrow> real \<Rightarrow> real list \<Rightarrow> weights \<Rightarrow> error + weights" where
  "Task_cpp_calculateWeights rng m_lat m_lon pts weights =
     Task_cpp_calculateWeights_outer rng m_lat m_lon pts 0 weights"

section \<open>createPlan\<close>

text \<open>\<^verbatim>\<open>operator<<\<close> on an unsigned integer writes its decimal digits.\<close>

definition digit_char :: "nat \<Rightarrow> char" where
  "digit_char d = ''0123456789'' ! d"

fun dec :: "nat \<Rightarrow> string" where
  "dec n = (if n < 10 then [digit_char n] else dec (n div 10) @ [digit_char (n mod 10)])"

declare dec.simps [simp del]

text \<open>The six assignments to a fresh \<^verbatim>\<open>IMC::Goto\<close> (lines 297--303 and 330--336); the
  literal \<^verbatim>\<open>1.6\<close> is the rational \<open>16/10\<close>.\<close>

definition goto_maneuver :: "real \<Rightarrow> real \<Rightarrow> Goto" where
  "goto_maneuver la lo =
     \<lparr>lat = la, lon = lo, speed = 16 / 10, speed_units = SUNITS_METERS_PS, z = 0, z_units = Z_DEPTH\<rparr>"

definition plan_maneuver :: "nat \<Rightarrow> Goto \<Rightarrow> PlanManeuver" where
  "plan_maneuver i g = \<lparr>maneuver_id = ''Goto'' @ dec i, data = g\<rparr>"

definition plan_transition :: "nat \<Rightarrow> nat \<Rightarrow> PlanTransition" where
  "plan_transition src dst =
     \<lparr>source_man = ''Goto'' @ dec src, dest_man = ''Goto'' @ dec dst, conditions = ''ManeuverIsDone''\<rparr>"

text \<open>The loop \<^verbatim>\<open>for (i = 0; i < indices.size(); i++)\<close>, lines 293--327. Inside the
  \<^verbatim>\<open>else\<close> branch \<open>i\<close> is positive, so \<^verbatim>\<open>(i) - 1\<close> does not wrap.\<close>

function createPlan_loop :: "real list \<Rightarrow> nat list \<Rightarrow> nat \<Rightarrow> PlanSpecification \<Rightarrow> error + PlanSpecification" where
  "createPlan_loop pts indices i plan =
     (if i < length indices then
        (case read_point pts (indices ! i * 2) of
           Inl e \<Rightarrow> Inl e
         | Inr (la, lo) \<Rightarrow>
            (let pman = plan_maneuver i (goto_maneuver la lo);
                 plan1 = plan\<lparr>maneuvers := maneuvers plan @ [pman]\<rparr>;
                 plan2 = (if i = 0 then plan1\<lparr>start_man_id := maneuver_id pman\<rparr>
                          else plan1\<lparr>transitions := transitions plan1 @ [plan_transition (i - 1) i]\<rparr>)
             in createPlan_loop pts indices (i + 1) plan2))
      else Inr plan)"
  by pat_completeness auto
termination
  by (relation "measure (\<lambda>(pts, indices, i, plan). length indices - i)") auto

declare createPlan_loop.simps [simp del]

text \<open>\<^verbatim>\<open>indices.size() - 1\<close> is computed in \<^verbatim>\<open>size_t\<close> (64 bits): for an empty route it
  wraps to \<open>2^64 - 1\<close>.\<close>

definition size_minus_1 :: "nat \<Rightarrow> nat" where
  "size_minus_1 n = unat ((word_of_nat n :: 64 word) - 1)"

definition createPlan :: "nat list \<Rightarrow> Task \<Rightarrow> error + Task" where
  "createPlan indices t =
     (case createPlan_loop (points_to_visit t) indices 0 (m_plan_to_run t) of
        Inl e \<Rightarrow> Inl e
      | Inr plan \<Rightarrow>
         (let pman = plan_maneuver (length indices) (goto_maneuver (m_auv_lat t) (m_auv_lon t));
              plan1 = plan\<lparr>maneuvers := maneuvers plan @ [pman]\<rparr>;
              ptrans = plan_transition (size_minus_1 (length indices)) (length indices);
              plan2 = plan1\<lparr>transitions := transitions plan1 @ [ptrans]\<rparr>
          in Inr (t\<lparr>m_plan_to_run := plan2\<rparr>)))"

section \<open>Double-precision arithmetic\<close>

text \<open>
  The values of a \<^verbatim>\<open>double\<close> (IEEE 754 binary64): the finite ones, which are the real
  numbers \<open>\<plusminus> k \<cdot> 2\<^sup>e\<close> with \<open>k < 2\<^sup>5\<^sup>3\<close> and \<open>-1074 \<le> e \<le> 971\<close>, the two infinities and
  NaN. The two zeros are one value here: the sums and comparisons of \<^verbatim>\<open>TSP\<close> do not tell
  them apart. Every operation is taken to round to binary64 at once, as the compiled code
  does on a target that does not hold \<^verbatim>\<open>double\<close> expressions in a wider format.

  A matrix entry is a real number, hence a finite double: a matrix holding an infinity or
  a NaN is outside the model.
\<close>

datatype double = Finite real | PInf | MInf | NaN

text \<open>Rounding to the nearest integer, a tie going to the even one.\<close>

definition round_half_even :: "real \<Rightarrow> int" where
  "round_half_even x =
     (let f = \<lfloor>x\<rfloor>; d = x - of_int f
      in if d < 1 / 2 then f else if 1 / 2 < d then f + 1 else if even f then f else f + 1)"

text \<open>
  \<open>to_double x\<close> is the double nearest to the real \<open>x\<close>, a tie going to the even
  significand: the default rounding of IEEE 754. In units of \<open>2\<^sup>-\<^sup>1\<^sup>0\<^sup>7\<^sup>4\<close>, the spacing of
  the subnormal numbers, the magnitudes of the finite doubles are the integers of at most
  \<open>53\<close> bits and, among the integers of \<open>L > 53\<close> bits, the multiples of \<open>2\<^sup>L\<^sup>-\<^sup>5\<^sup>3\<close>, up to
  \<open>(2\<^sup>5\<^sup>3 - 1) \<cdot> 2\<^sup>2\<^sup>0\<^sup>4\<^sup>5\<close>, which is \<^verbatim>\<open>DBL_MAX\<close>. A magnitude that rounds to \<open>2\<^sup>2\<^sup>0\<^sup>9\<^sup>8\<close> or more
  has overflowed and yields an infinity.
\<close>

definition to_double :: "real \<Rightarrow> double" where
  "to_double x =
     (let a = \<bar>x\<bar> * 2 ^ 1074;
          L = bitlen \<lfloor>a\<rfloor>;
          ulp = (if L \<le> 53 then 1 else 2 ^ nat (L - 53));
          n = round_half_even (a / of_int ulp) * ulp
      in if 2 ^ 2098 \<le> n then (if x < 0 then MInf else PInf)
         else Finite (sgn x * of_int n / 2 ^ 1074))"

text \<open>The sum of two doubles: the exact sum of two finite values, rounded; an infinity
  absorbs a finite value; infinities of opposite sign, or a NaN operand, give NaN.\<close>

fun dadd :: "double \<Rightarrow> double \<Rightarrow> double" where
  "dadd NaN y = NaN"
| "dadd x NaN = NaN"
| "dadd PInf MInf = NaN"
| "dadd MInf PInf = NaN"
| "dadd PInf y = PInf"
| "dadd x PInf = PInf"
| "dadd MInf y = MInf"
| "dadd x MInf = MInf"
| "dadd (Finite x) (Finite y) = to_double (x + y)"

text \<open>The comparison \<^verbatim>\<open><\<close> of two doubles: false as soon as one operand is NaN.\<close>

fun dless :: "double \<Rightarrow> double \<Rightarrow> bool" where
  "dless (Finite x) (Finite y) = (x < y)"
| "dless (Finite x) PInf = True"
| "dless MInf (Finite y) = True"
| "dless MInf PInf = True"
| "dless x y = False"

text \<open>\<^verbatim>\<open>DBL_MAX\<close> of \<^verbatim>\<open>cfloat\<close>, the largest finite IEEE 754 double.\<close>

definition DBL_MAX :: real where
  "DBL_MAX = (2 - 1 / 2 ^ 52) * 2 ^ 1023"

section \<open>TSP\<close>

text \<open>
  \<^verbatim>\<open>std::next_permutation\<close> is the standard library's. Its algorithm, on the range
  \<open>[first, last)\<close>: walk \<open>i\<close> back from the end until \<open>*i < *(i+1)\<close>; if there is no
  such \<open>i\<close>, reverse the whole range and return \<open>false\<close>; otherwise walk \<open>j\<close> back from
  the end to the first element with \<open>*i < *j\<close>, swap \<open>*i\<close> and \<open>*j\<close>, reverse the
  range after \<open>i\<close> and return \<open>true\<close>.

  In \<open>next_permutation_scan r d\<close> the list \<open>r\<close> holds the elements before the walked-over
  suffix \<open>d\<close>, nearest first. \<open>swap_pivot a d\<close> is the part of the result from position
  \<open>i\<close> on, for the pivot \<open>a = *i\<close> and the suffix \<open>d\<close>: seen from the end, the suffix
  splits into the elements not above \<open>a\<close> and the rest, whose first element is \<open>*j\<close>.
\<close>

definition swap_pivot :: "nat \<Rightarrow> nat list \<Rightarrow> nat list" where
  "swap_pivot a d =
     (let rd = rev d;
          lo = takeWhile (\<lambda>x. \<not> a < x) rd;
          hi = dropWhile (\<lambda>x. \<not> a < x) rd
      in hd hi # lo @ a # tl hi)"

fun next_permutation_scan :: "nat list \<Rightarrow> nat list \<Rightarrow> bool \<times> nat list" where
  "next_permutation_scan [] d = (False, rev d)"
| "next_permutation_scan (a # r) d =
     (if a < hd d then (True, rev r @ swap_pivot a d) else next_permutation_scan r (a # d))"

definition next_permutation :: "nat list \<Rightarrow> bool \<times> nat list" where
  "next_permutation xs =
     (case rev xs of
        [] \<Rightarrow> (False, xs)
      | [x] \<Rightarrow> (False, xs)
      | l # r \<Rightarrow> next_permutation_scan r [l])"

text \<open>The loop that fills \<^verbatim>\<open>indices\<close> (lines 245--248).\<close>

function TSP_indices :: "nat \<Rightarrow> nat \<Rightarrow> nat list" where
  "TSP_indices sz i = (if i < sz then (i div 2 + 1) # TSP_indices sz (i + 2) else [])"
  by pat_completeness auto
termination
  by (relation "measure (\<lambda>(sz, i). sz - i)") auto

declare TSP_indices.simps [simp del]

text \<open>The weight of one tour (lines 256--264): \<open>k\<close> is the vertex the tour stands at,
  \<open>acc\<close> is \<^verbatim>\<open>current_pathweight\<close>. Each \<^verbatim>\<open>+=\<close> is one double addition; the
  matrix entry read is the double \<open>to_double x\<close>, which is \<open>x\<close> itself when \<open>x\<close> is the
  value of a double.\<close>

fun path_weight :: "weights \<Rightarrow> nat \<Rightarrow> nat list \<Rightarrow> double \<Rightarrow> error + double" where
  "path_weight w k [] acc =
     (case elem_at2 w k 0 of Inl e \<Rightarrow> Inl e | Inr x \<Rightarrow> Inr (dadd acc (to_double x)))"
| "path_weight w k (v # vs) acc =
     (case elem_at2 w k v of
        Inl e \<Rightarrow> Inl e
      | Inr x \<Rightarrow> path_weight w v vs (dadd acc (to_double x)))"

text \<open>The \<^verbatim>\<open>do ... while (next_permutation(...))\<close> loop (lines 254--275). Its termination
  is proved below, once \<open>next_permutation\<close> is known to move strictly upwards in the
  lexicographic order.\<close>

function TSP_loop :: "weights \<Rightarrow> nat list \<Rightarrow> double \<Rightarrow> nat list \<Rightarrow> error + nat list" where
  "TSP_loop weights indices min_path best_indices =
     (case path_weight weights 0 indices (Finite 0) of
        Inl e \<Rightarrow> Inl e
      | Inr current_pathweight \<Rightarrow>
         (let min_path' = (if dless current_pathweight min_path then current_pathweight
                           else min_path);
              best_indices' = (if dless current_pathweight min_path then indices
                               else best_indices);
              (has_next, indices') = next_permutation indices
          in if has_next then TSP_loop weights indices' min_path' best_indices'
             else Inr best_indices'))"
  by pat_completeness auto

text \<open>The closing \<^verbatim>\<open>std::transform\<close> subtracts one from every vertex. Every vertex is
  at least one, so the subtraction on \<^typ>\<open>nat\<close> is the one of the source.\<close>

definition TSP :: "weights \<Rightarrow> Task \<Rightarrow> error + nat list" where
  "TSP weights t =
     (case TSP_loop weights (TSP_indices (length (points_to_visit t)) 0) (Finite DBL_MAX) [] of
        Inl e \<Rightarrow> Inl e
      | Inr best_indices \<Rightarrow> Inr (map (\<lambda>element. element - 1) best_indices))"

section \<open>Construction\<close>

text \<open>The constructor (lines 74--100). It leaves \<^verbatim>\<open>m_progress\<close>, \<^verbatim>\<open>m_auv_lat\<close> and
  \<^verbatim>\<open>m_auv_lon\<close> uninitialised; whatever they hold is a parameter here.\<close>

definition Task_ctor :: "real \<Rightarrow> real \<Rightarrow> real \<Rightarrow> Task" where
  "Task_ctor progress0 lat0 lon0 =
     \<lparr>points_to_visit = [], m_vstate = VS_BOOT, m_in_mission = False, m_progress = progress0,
      m_auv_lat = lat0, m_auv_lon = lon0, m_PTV_ok = False, m_plan_sent = False,
      m_plan_to_run =
        \<lparr>plan_id = ''PlanVisit'',
         description = ''Visiting given points in ini file in optimal order based on range'',
         start_man_id = [], maneuvers = [], transitions = []\<rparr>\<rparr>"

section \<open>Life cycle: parameters, activation, messages, main loop\<close>

text \<open>What the task shows to its host: the entity state it last set, and the
  \<^verbatim>\<open>PlanControl\<close> requests it dispatched. \<^verbatim>\<open>setDestination(getSystemId())\<close> addresses
  every request to the local system and is not a field.\<close>

datatype status_code = CODE_INIT | CODE_IDLE | CODE_ACTIVE

datatype plan_control_type = PC_REQUEST | PC_SUCCESS | PC_FAILURE | PC_IN_PROGRESS

datatype plan_control_op = PC_START | PC_STOP | PC_LOAD | PC_GET

record PlanControl =
  pc_type :: plan_control_type
  pc_op :: plan_control_op
  request_id :: "16 word"
  pc_plan_id :: string
  arg :: PlanSpecification

record Host =
  task :: Task
  active :: bool
  entity_code :: status_code
  dispatched :: "PlanControl list"

definition Host_init :: "real \<Rightarrow> real \<Rightarrow> real \<Rightarrow> Host" where
  "Host_init progress0 lat0 lon0 =
     \<lparr>task = Task_ctor progress0 lat0 lon0, active = False, entity_code = CODE_INIT, dispatched = []\<rparr>"

text \<open>Modelled from the spec: \<^verbatim>\<open>Angles::radians\<close> of the DUNE core is not among the
  sources; section 4.1 has each value converted from degrees to radians.\<close>

definition radians :: "real \<Rightarrow> real" where
  "radians d = d * pi / 180"

definition onUpdateParameters :: "Task \<Rightarrow> Task" where
  "onUpdateParameters t =
     (if length (points_to_visit t) mod 2 \<noteq> 0 then t\<lparr>m_PTV_ok := False\<rparr>
      else t\<lparr>points_to_visit := map radians (points_to_visit t), m_PTV_ok := True\<rparr>)"

definition onActivation :: "Host \<Rightarrow> Host" where
  "onActivation h = (if m_PTV_ok (task h) then h\<lparr>entity_code := CODE_ACTIVE\<rparr> else h)"

definition onDeactivation :: "Host \<Rightarrow> Host" where
  "onDeactivation h = h\<lparr>entity_code := CODE_IDLE\<rparr>"

text \<open>Modelled from the spec: the host runtime \<^verbatim>\<open>DUNE::Tasks::Task\<close> (\<^verbatim>\<open>isActive\<close>,
  the activation and deactivation requests) is not among the sources. \<open>active h\<close> is what
  \<^verbatim>\<open>isActive()\<close> returns. Section 7 has an odd-length list disable the capability and
  refuse activation: an activation request runs \<^verbatim>\<open>onActivation\<close> and makes the task
  active only when the points are marked valid. A deactivation request runs
  \<^verbatim>\<open>onDeactivation\<close> and makes the task inactive.\<close>

definition requestActivation :: "Host \<Rightarrow> Host" where
  "requestActivation h =
     (if m_PTV_ok (task h) then (onActivation h)\<lparr>active := True\<rparr> else onActivation h)"

definition requestDeactivation :: "Host \<Rightarrow> Host" where
  "requestDeactivation h = (onDeactivation h)\<lparr>active := False\<rparr>"

datatype plan_state = PCS_BLOCKED | PCS_READY | PCS_INITIALIZING | PCS_EXECUTING

datatype last_plan_outcome = LPO_NONE | LPO_SUCCESS | LPO_FAILURE

definition consume_VehicleState :: "op_mode \<Rightarrow> Host \<Rightarrow> Host" where
  "consume_VehicleState op h = h\<lparr>task := (task h)\<lparr>m_vstate := op\<rparr>\<rparr>"

definition consume_PlanControlState :: "plan_state \<Rightarrow> real \<Rightarrow> last_plan_outcome \<Rightarrow> Host \<Rightarrow> Host" where
  "consume_PlanControlState st progress outcome h =
     (let h1 = h\<lparr>task := (task h)\<lparr>m_in_mission := (st = PCS_EXECUTING), m_progress := progress\<rparr>\<rparr>
      in if m_in_mission (task h1) \<and> outcome = LPO_SUCCESS then requestDeactivation h1 else h1)"

text \<open>\<^verbatim>\<open>Coordinates::toWGS84\<close> is the DUNE core's; the message is modelled by the
  latitude and longitude it yields.\<close>

definition consume_EstimatedState :: "real \<Rightarrow> real \<Rightarrow> Host \<Rightarrow> Host" where
  "consume_EstimatedState la lo h =
     h\<lparr>entity_code := CODE_ACTIVE, task := (task h)\<lparr>m_auv_lat := la, m_auv_lon := lo\<rparr>\<rparr>"

definition sendPlan :: "32 word \<Rightarrow> Host \<Rightarrow> Host" where
  "sendPlan rnd h =
     h\<lparr>dispatched := dispatched h @
        [\<lparr>pc_type = PC_REQUEST, pc_op = PC_START, request_id = ucast (rnd AND 0xFFFF),
          pc_plan_id = plan_id (m_plan_to_run (task h)), arg = m_plan_to_run (task h)\<rparr>]\<rparr>"

text \<open>One round of the \<^verbatim>\<open>while (!stopping())\<close> loop of \<^verbatim>\<open>onMain\<close>, up to
  \<^verbatim>\<open>waitForMessages\<close>; \<open>rnd\<close> is the number \<^verbatim>\<open>m_gen->random()\<close> returns if it is
  called.\<close>

definition onMain_round :: "range_fn \<Rightarrow> 32 word \<Rightarrow> Host \<Rightarrow> error + Host" where
  "onMain_round rng rnd h =
     (if active h \<and> \<not> m_plan_sent (task h) \<and> m_vstate (task h) = VS_SERVICE then
        (case calculateWeights rng (task h) of
           Inl e \<Rightarrow> Inl e
         | Inr weights \<Rightarrow>
            (case TSP weights (task h) of
               Inl e \<Rightarrow> Inl e
             | Inr index \<Rightarrow>
                (case createPlan index (task h) of
                   Inl e \<Rightarrow> Inl e
                 | Inr t1 \<Rightarrow>
                    (let h1 = sendPlan rnd (h\<lparr>task := t1\<rparr>)
                     in Inr (h1\<lparr>task := (task h1)\<lparr>m_plan_sent := True\<rparr>\<rparr>)))))
      else Inr h)"

text \<open>What the host can make happen, in any order: a new parameter value (the host stores
  the list, then calls \<^verbatim>\<open>onUpdateParameters\<close>), an activation or deactivation request,
  the three messages the task is bound to, and a round of the main loop.\<close>

datatype event =
    UpdateParameters "real list"
  | Activation
  | Deactivation
  | VehicleState_msg op_mode
  | PlanControlState_msg plan_state real last_plan_outcome
  | EstimatedState_msg real real
  | MainLoop "32 word"

fun step :: "range_fn \<Rightarrow> event \<Rightarrow> Host \<Rightarrow> error + Host" where
  "step rng (UpdateParameters pts) h =
     Inr (h\<lparr>task := onUpdateParameters ((task h)\<lparr>points_to_visit := pts\<rparr>)\<rparr>)"
| "step rng Activation h = Inr (requestActivation h)"
| "step rng Deactivation h = Inr (requestDeactivation h)"
| "step rng (VehicleState_msg op) h = Inr (consume_VehicleState op h)"
| "step rng (PlanControlState_msg st progress outcome) h =
     Inr (consume_PlanControlState st progress outcome h)"
| "step rng (EstimatedState_msg la lo) h = Inr (consume_EstimatedState la lo h)"
| "step rng (MainLoop rnd) h = onMain_round rng rnd h"

fun run :: "range_fn \<Rightarrow> event list \<Rightarrow> Host \<Rightarrow> error + Host" where
  "run rng [] h = Inr h"
| "run rng (e # es) h = (case step rng e h of Inl x \<Rightarrow> Inl x | Inr h' \<Rightarrow> run rng es h')"

section \<open>Example inputs\<close>

text \<open>A stand-in for the geodesic range in concrete evaluations: symmetric, non-negative and
  zero between a point and itself.\<close>

definition manhattan :: range_fn where
  "manhattan a b c d = \<bar>a - c\<bar> + \<bar>b - d\<bar>"

text \<open>Two waypoints, \<open>(1, 0)\<close> and \<open>(0, 1)\<close>, with the vehicle at \<open>(0, 0)\<close>.\<close>

definition example_task :: Task where
  "example_task = (Task_ctor 0 0 0)\<lparr>points_to_visit := [1, 0, 0, 1]\<rparr>"

text \<open>The matrix \<^verbatim>\<open>calculateWeights\<close> returns for \<open>example_task\<close> under \<open>manhattan\<close>: both
  visiting orders cost \<open>4\<close>.\<close>

definition example_weights :: weights where
  "example_weights = [[0, 1, 1], [1, 0, 2], [1, 2, 0]]"

text \<open>A matrix for two waypoints in which the order \<open>1, 2\<close> costs \<open>6\<close> and the order
  \<open>2, 1\<close> costs \<open>3\<close>.\<close>

definition detour_weights :: weights where
  "detour_weights = [[0, 3, 1], [1, 0, 2], [1, 1, 0]]"

text \<open>Matrices for two waypoints with entries \<open>2\<^sup>5\<^sup>3\<close>, from where on the doubles are two
  apart: adding \<open>1\<close> to \<open>2\<^sup>5\<^sup>3\<close> gives \<open>2\<^sup>5\<^sup>3\<close> again. In the first the order \<open>1, 2\<close>
  has the exact cost \<open>2\<^sup>5\<^sup>3 + 1\<close> and the order \<open>2, 1\<close> the exact cost \<open>2\<^sup>5\<^sup>3\<close>. The second
  is symmetric and both orders have the exact cost \<open>2\<^sup>5\<^sup>3 + 2\<close>.\<close>

definition rounding_weights :: weights where
  "rounding_weights = [[0, 2 ^ 53, 2 ^ 53], [0, 0, 1], [0, 0, 0]]"

definition reordering_weights :: weights where
  "reordering_weights = [[0, 1, 2 ^ 53], [1, 0, 1], [2 ^ 53, 1, 0]]"

text \<open>One waypoint, and matrices for it and for two waypoints whose entries reach
  \<^verbatim>\<open>DBL_MAX\<close>.\<close>

definition one_waypoint_task :: Task where
  "one_waypoint_task = (Task_ctor 0 0 0)\<lparr>points_to_visit := [1, 0]\<rparr>"

definition sentinel_weights :: weights where
  "sentinel_weights = [[0, DBL_MAX], [0, 0]]"

definition plain_weights :: weights where
  "plain_weights = [[0, 2], [3, 0]]"



definition tied_weights :: weights where
  "tied_weights = [[0, DBL_MAX, DBL_MAX], [0, 0, 0], [0, 0, 0]]"

text \<open>Event sequences, all run from the freshly constructed task: one waypoint is
  configured, the task is activated, the vehicle reports service mode and a round of the
  main loop sends the plan; then the task is deactivated and activated again; and an
  odd-length list is configured while the task is active.\<close>

definition first_plan_trace :: "event list" where
  "first_plan_trace =
     [UpdateParameters [0, 0], Activation, VehicleState_msg VS_SERVICE, MainLoop 1]"

definition reactivation_trace :: "event list" where
  "reactivation_trace = [Deactivation, Activation, MainLoop 2]"

definition odd_reconfiguration_trace :: "event list" where
  "odd_reconfiguration_trace =
     [UpdateParameters [0, 0], Activation, UpdateParameters [1, 2, 3], VehicleState_msg VS_SERVICE]"

text \<open>The task run with the default parameter value, the empty list.\<close>

definition empty_configuration_trace :: "event list" where
  "empty_configuration_trace =
     [UpdateParameters [], Activation, VehicleState_msg VS_SERVICE, MainLoop 1]"

section \<open>Predicates used in the statements\<close>

text \<open>A matrix with \<open>m\<close> rows of \<open>m\<close> entries.\<close>

definition shape :: "nat \<Rightarrow> 'a list list \<Rightarrow> bool" where
  "shape m w = (length w = m \<and> (\<forall>row \<in> set w. length row = m))"

text \<open>The invariant of both loops of \<^verbatim>\<open>calculateWeights\<close>: square, symmetric, zero
  diagonal and, when the flag \<open>nn\<close> says the range function is non-negative, no negative
  entry.\<close>

definition weights_inv :: "bool \<Rightarrow> nat \<Rightarrow> weights \<Rightarrow> bool" where
  "weights_inv nn m w =
     (shape m w \<and> (\<forall>i<m. \<forall>j<m. w ! i ! j = w ! j ! i) \<and> (\<forall>i<m. w ! i ! i = 0)
      \<and> (nn \<longrightarrow> (\<forall>i<m. \<forall>j<m. 0 \<le> w ! i ! j)))"

text \<open>The maneuver the loop of \<^verbatim>\<open>createPlan\<close> appends in round \<open>k\<close>.\<close>

definition visit_maneuver :: "real list \<Rightarrow> nat list \<Rightarrow> nat \<Rightarrow> PlanManeuver" where
  "visit_maneuver pts indices k =
     plan_maneuver k (goto_maneuver (pts ! (indices ! k * 2)) (pts ! (indices ! k * 2 + 1)))"

text \<open>The cycle cost of a visiting order \<open>v\<close> over the vertices of the matrix:
  \<open>M[0][v\<^sub>1] + \<dots> + M[v\<^sub>k][v\<^sub>k\<^sub>+\<^sub>1] + \<dots> + M[v\<^sub>n][0]\<close>, the sum over the consecutive pairs of the
  closed tour \<open>0, v\<^sub>1, \<dots>, v\<^sub>n, 0\<close>, in exact arithmetic.\<close>

definition cycle_cost :: "weights \<Rightarrow> nat list \<Rightarrow> real" where
  "cycle_cost M v = sum_list (map (\<lambda>(a, b). M ! a ! b) (zip (0 # v) (v @ [0])))"

text \<open>The same sum as the source computes it: the entries are added one by one, in the
  order of the tour, to a \<^verbatim>\<open>double\<close> that starts at \<open>0\<close>, every addition rounding.\<close>

definition computed_cost :: "weights \<Rightarrow> nat list \<Rightarrow> double" where
  "computed_cost M v =
     fold (\<lambda>(a, b) acc. dadd acc (to_double (M ! a ! b))) (zip (0 # v) (v @ [0])) (Finite 0)"

text \<open>The doubles other than NaN are linearly ordered by \<^verbatim>\<open><\<close>. \<open>double_key\<close> maps them
  into a linear order, monotonically, with NaN put above everything, so that a comparison
  with a bound that is not NaN is a comparison of keys.\<close>

fun double_key :: "double \<Rightarrow> nat \<times> real" where
  "double_key MInf = (0, 0)"
| "double_key (Finite x) = (1, x)"
| "double_key PInf = (2, 0)"
| "double_key NaN = (3, 0)"

text \<open>What the loop of \<^verbatim>\<open>TSP\<close> holds in \<^verbatim>\<open>best_indices\<close> after it has visited the
  permutations in \<open>S\<close>, having started from the bound \<open>m\<close> and the candidate \<open>best\<close>:
  if some permutation in \<open>S\<close> costs less than \<open>m\<close>, the first one (in the lexicographic
  order) among the cheapest, and \<open>best\<close> otherwise.\<close>

definition first_min ::
  "(nat list \<Rightarrow> 'c::linorder) \<Rightarrow> nat list set \<Rightarrow> 'c \<Rightarrow> nat list \<Rightarrow> nat list \<Rightarrow> bool" where
  "first_min cost S m best r =
     (if \<exists>q \<in> S. cost q < m
      then r \<in> S \<and> cost r < m \<and> (\<forall>q \<in> S. cost r \<le> cost q) \<and> (\<forall>q \<in> S. cost q = cost r \<longrightarrow> r \<le> q)
      else r = best)"

section \<open>Matrix reads and writes\<close>

lemma shape_nth: "shape m w \<Longrightarrow> i < m \<Longrightarrow> length (w ! i) = m"
  by (simp add: shape_def)

lemma store_at2_ok:
  "shape m w \<Longrightarrow> i < m \<Longrightarrow> j < m \<Longrightarrow> store_at2 w i j v = Inr (w[i := (w ! i)[j := v]])"
  by (simp add: store_at2_def shape_def)

lemma shape_update: "shape m w \<Longrightarrow> i < m \<Longrightarrow> shape m (w[i := (w ! i)[j := v]])"
  by (auto simp: shape_def dest!: set_update_subset_insert[THEN subsetD])

lemma nth_update2:
  "shape m w \<Longrightarrow> a < m \<Longrightarrow> b < m \<Longrightarrow> i < m \<Longrightarrow> j < m \<Longrightarrow>
   (w[i := (w ! i)[j := v]]) ! a ! b = (if a = i \<and> b = j then v else w ! a ! b)"
  by (auto simp: shape_def nth_list_update)

lemma weights_inv_diag:
  assumes "weights_inv nn m w" "a < m"
  shows "weights_inv nn m (w[a := (w ! a)[a := 0]])"
  using assms unfolding weights_inv_def
  by (auto simp: shape_update nth_update2)

lemma weights_inv_pair:
  assumes "weights_inv nn m w" "a < m" "b < m" "a \<noteq> b" "nn \<longrightarrow> 0 \<le> r"
  shows "weights_inv nn m ((w[a := (w ! a)[b := r]])[b := ((w[a := (w ! a)[b := r]]) ! b)[a := r]])"
proof -
  define w1 where "w1 = w[a := (w ! a)[b := r]]"
  define w2 where "w2 = w1[b := (w1 ! b)[a := r]]"
  have s: "shape m w" using assms(1) by (simp add: weights_inv_def)
  have s1: "shape m w1" unfolding w1_def using s assms(2) by (rule shape_update)
  have s2: "shape m w2" unfolding w2_def using s1 assms(3) by (rule shape_update)
  have n: "w2 ! i ! j = (if (i = a \<and> j = b) \<or> (i = b \<and> j = a) then r else w ! i ! j)"
    if ij: "i < m" "j < m" for i j
  proof -
    have e2: "w2 ! i ! j = (if i = b \<and> j = a then r else w1 ! i ! j)"
      unfolding w2_def by (rule nth_update2[OF s1 ij assms(3,2)])
    have e1: "w1 ! i ! j = (if i = a \<and> j = b then r else w ! i ! j)"
      unfolding w1_def by (rule nth_update2[OF s ij assms(2,3)])
    show ?thesis unfolding e2 e1 by (cases "i = a"; cases "i = b"; cases "j = a"; cases "j = b"; simp only: if_True if_False simp_thms)
  qed
  have sym: "\<forall>i<m. \<forall>j<m. w ! i ! j = w ! j ! i" and dg: "\<forall>i<m. w ! i ! i = 0"
    and nn: "nn \<longrightarrow> (\<forall>i<m. \<forall>j<m. 0 \<le> w ! i ! j)"
    using assms(1) by (simp_all add: weights_inv_def)
  have "weights_inv nn m w2"
    unfolding weights_inv_def
  proof (intro conjI allI impI)
    show "shape m w2" by (rule s2)
  next
    fix i j assume "i < m" "j < m"
    then show "w2 ! i ! j = w2 ! j ! i" using sym by (auto simp: n)
  next
    fix i assume "i < m"
    then show "w2 ! i ! i = 0" using dg assms(4) by (simp add: n)
  next
    fix i j assume "nn" "i < m" "j < m"
    then show "0 \<le> w2 ! i ! j" using nn assms(5) by (simp add: n)
  qed
  then show ?thesis by (simp add: w2_def w1_def)
qed

lemma read_point_ok:
  "i + 1 < length pts \<Longrightarrow> read_point pts i = Inr (pts ! i, pts ! (i + 1))"
  by (simp add: read_point_def elem_at_def)

lemma even_idx:
  "even (n::nat) \<Longrightarrow> even i \<Longrightarrow> i < n \<Longrightarrow> i + 1 < n \<and> i div 2 + 1 < n div 2 + 1"
  by (auto elim!: evenE)

lemma inner_inv:
  assumes ev: "even (length pts)" and nn: "nn \<longrightarrow> (\<forall>a b c d. 0 \<le> rng a b c d)"
  shows "weights_inv nn (length pts div 2 + 1) w \<Longrightarrow> even i \<Longrightarrow> even j \<Longrightarrow> i \<le> j \<Longrightarrow>
    \<exists>w'. calculateWeights_inner rng pts i j w = Inr w' \<and> weights_inv nn (length pts div 2 + 1) w'"
  using ev nn
proof (induction rng pts i j w rule: calculateWeights_inner.induct)
  case (1 rng pts i j w)
  let ?m = "length pts div 2 + 1"
  show ?case
  proof (cases "j < length pts")
    case False
    then show ?thesis using "1.prems"(1) by (subst calculateWeights_inner.simps) simp
  next
    case jlt: True
    have sh: "shape ?m w" using "1.prems"(1) by (simp add: weights_inv_def)
    have ilt: "i < length pts" using jlt "1.prems"(4) by simp
    have jb: "j + 1 < length pts" "j div 2 + 1 < ?m"
      using even_idx[OF "1.prems"(5) "1.prems"(3) jlt] by simp_all
    have ib: "i + 1 < length pts" "i div 2 + 1 < ?m"
      using even_idx[OF "1.prems"(5) "1.prems"(2) ilt] by simp_all
    have next_ok: "even (j + 2)" "i \<le> j + 2" using "1.prems"(3,4) by simp_all
    show ?thesis
    proof (cases "i = j")
      case True
      let ?w1 = "w[i div 2 + 1 := (w ! (i div 2 + 1))[j div 2 + 1 := 0]]"
      have st: "store_at2 w (i div 2 + 1) (j div 2 + 1) 0 = Inr ?w1"
        by (rule store_at2_ok[OF sh ib(2) jb(2)])
      have "weights_inv nn ?m ?w1"
        using weights_inv_diag[OF "1.prems"(1) ib(2)] True by simp
      from "1.IH"(1)[OF jlt True st this "1.prems"(2) next_ok "1.prems"(5,6)]
      show ?thesis
        using jlt True st by (subst calculateWeights_inner.simps) simp
    next
      case False
      define r where "r = rng (pts ! i) (pts ! (i + 1)) (pts ! j) (pts ! (j + 1))"
      define w1 where "w1 = w[i div 2 + 1 := (w ! (i div 2 + 1))[j div 2 + 1 := r]]"
      define w2 where "w2 = w1[j div 2 + 1 := (w1 ! (j div 2 + 1))[i div 2 + 1 := r]]"
      have ri: "read_point pts i = Inr (pts ! i, pts ! (i + 1))" by (rule read_point_ok[OF ib(1)])
      have rj: "read_point pts j = Inr (pts ! j, pts ! (j + 1))" by (rule read_point_ok[OF jb(1)])
      have sh1: "shape ?m w1" unfolding w1_def by (rule shape_update[OF sh ib(2)])
      have st1: "store_at2 w (i div 2 + 1) (j div 2 + 1) r = Inr w1"
        unfolding w1_def by (rule store_at2_ok[OF sh ib(2) jb(2)])
      have st2: "store_at2 w1 (j div 2 + 1) (i div 2 + 1) r = Inr w2"
        unfolding w2_def by (rule store_at2_ok[OF sh1 jb(2) ib(2)])
      have ne: "i div 2 + 1 \<noteq> j div 2 + 1"
        using False "1.prems"(2,3) by (auto elim!: evenE)
      have r0: "nn \<longrightarrow> 0 \<le> r" using "1.prems"(6) by (simp add: r_def)
      have inv2: "weights_inv nn ?m w2"
        unfolding w2_def w1_def by (rule weights_inv_pair[OF "1.prems"(1) ib(2) jb(2) ne r0])
      from "1.IH"(2)[OF jlt False ri refl rj refl st1[unfolded r_def] st2[unfolded r_def] inv2
          "1.prems"(2) next_ok "1.prems"(5,6)]
      show ?thesis
        using jlt False ri rj st1 st2
        by (subst calculateWeights_inner.simps) (simp add: r_def)
    qed
  qed
qed

lemma outer_inv:
  assumes ev: "even (length pts)" and nn: "nn \<longrightarrow> (\<forall>a b c d. 0 \<le> rng a b c d)"
  shows "weights_inv nn (length pts div 2 + 1) w \<Longrightarrow> even i \<Longrightarrow>
    \<exists>w'. calculateWeights_outer rng alat alon pts i w = Inr w' \<and> weights_inv nn (length pts div 2 + 1) w'"
  using ev nn
proof (induction rng alat alon pts i w rule: calculateWeights_outer.induct)
  case (1 rng alat alon pts i w)
  let ?m = "length pts div 2 + 1"
  show ?case
  proof (cases "i < length pts")
    case False
    then show ?thesis using "1.prems"(1)
      by (subst calculateWeights_outer.simps) simp
  next
    case ilt: True
    define r where "r = rng alat alon (pts ! i) (pts ! (i + 1))"
    define w1 where "w1 = w[0 := (w ! 0)[i div 2 + 1 := r]]"
    define w2 where "w2 = w1[i div 2 + 1 := (w1 ! (i div 2 + 1))[0 := r]]"
    have sh: "shape ?m w" using "1.prems"(1) by (simp add: weights_inv_def)
    have ib: "i + 1 < length pts" "i div 2 + 1 < ?m"
      using even_idx[OF "1.prems"(3) "1.prems"(2) ilt] by simp_all
    have z: "0 < ?m" by simp
    have ri: "read_point pts i = Inr (pts ! i, pts ! (i + 1))" by (rule read_point_ok[OF ib(1)])
    have sh1: "shape ?m w1" unfolding w1_def by (rule shape_update[OF sh z])
    have st1: "store_at2 w 0 (i div 2 + 1) r = Inr w1"
      unfolding w1_def by (rule store_at2_ok[OF sh z ib(2)])
    have st2: "store_at2 w1 (i div 2 + 1) 0 r = Inr w2"
      unfolding w2_def by (rule store_at2_ok[OF sh1 ib(2) z])
    have r0: "nn \<longrightarrow> 0 \<le> r" using "1.prems"(4) by (simp add: r_def)
    have ne: "0 \<noteq> i div 2 + 1" by simp
    have inv2: "weights_inv nn ?m w2"
      unfolding w2_def w1_def by (rule weights_inv_pair[OF "1.prems"(1) z ib(2) ne r0])
    obtain w3 where w3: "calculateWeights_inner rng pts i i w2 = Inr w3" "weights_inv nn ?m w3"
      using inner_inv[OF "1.prems"(3,4) inv2 "1.prems"(2) "1.prems"(2) order_refl] by blast
    have "even (i + 2)" using "1.prems"(2) by simp
    from "1.IH"[OF ilt ri refl st1[unfolded r_def] st2[unfolded r_def] w3(1) w3(2) this "1.prems"(3,4)]
    show ?thesis
      using ilt ri st1 st2 w3(1)
      by (subst calculateWeights_outer.simps) (simp add: r_def)
  qed
qed

lemma weights_inv_init: "weights_inv nn m (replicate m (replicate m 0))"
  by (simp add: weights_inv_def shape_def)

lemma calculateWeights_inv:
  assumes "even (length (points_to_visit t))" "nn \<longrightarrow> (\<forall>a b c d. 0 \<le> rng a b c d)"
  shows "\<exists>w. calculateWeights rng t = Inr w \<and> weights_inv nn (length (points_to_visit t) div 2 + 1) w"
  unfolding calculateWeights_def Let_def
  by (rule outer_inv[OF assms weights_inv_init]) simp

section \<open>The loop of createPlan\<close>

lemma dec_small: "n < 10 \<Longrightarrow> dec n = [digit_char n]"
  by (simp add: dec.simps)

lemma dec_big: "\<not> n < 10 \<Longrightarrow> dec n = dec (n div 10) @ [digit_char (n mod 10)]"
  by (simp add: dec.simps)

lemmas createPlan_eval = createPlan_def createPlan_loop.simps Let_def plan_maneuver_def
  plan_transition_def size_minus_1_def unsigned_minus_1_eq_mask mask_eq_exp_minus_1
  dec_small dec_big digit_char_def read_point_def elem_at_def

lemma createPlan_loop_spec:
  assumes "\<forall>x \<in> set indices. x * 2 + 1 < length pts"
  shows "createPlan_loop pts indices i plan =
     Inr (plan\<lparr>maneuvers := maneuvers plan @ map (visit_maneuver pts indices) [i..<length indices],
               transitions := transitions plan @ map (\<lambda>k. plan_transition (k - 1) k) [max i 1..<length indices],
               start_man_id := (if i = 0 \<and> 0 < length indices then ''Goto'' @ dec 0 else start_man_id plan)\<rparr>)"
  using assms
proof (induction pts indices i plan rule: createPlan_loop.induct)
  case (1 pts indices i plan)
  show ?case
  proof (cases "i < length indices")
    case False
    then show ?thesis by (subst createPlan_loop.simps) auto
  next
    case True
    then have b: "indices ! i * 2 + 1 < length pts" using "1.prems" by simp
    note rp = read_point_ok[OF b]
    note ih = "1.IH"[OF True rp refl refl refl refl "1.prems"]
    have u1: "[i..<length indices] = i # [i + 1..<length indices]"
      using True by (simp add: upt_conv_Cons)
    show ?thesis
    proof (cases "i = 0")
      case i0: True
      show ?thesis
        using True i0 u1 rp ih
        by (subst createPlan_loop.simps) (simp add: Let_def visit_maneuver_def plan_maneuver_def)
    next
      case False
      then have m: "max i 1 = i" "max (i + 1) 1 = i + 1" by simp_all
      show ?thesis
        using True False u1 rp ih m
        by (subst createPlan_loop.simps) (simp add: Let_def visit_maneuver_def)
    qed
  qed
qed

section \<open>next\_permutation yields the lexicographic successor\<close>

text \<open>Lists are ordered lexicographically (\<open>HOL-Library.List_Lexorder\<close>). An ascending list
  is the least arrangement of its elements and a descending one the greatest.\<close>

lemma sorted_lex_least:
  "sorted xs \<Longrightarrow> mset ys = mset xs \<Longrightarrow> xs \<le> (ys :: nat list)"
proof (induction xs arbitrary: ys)
  case Nil
  then show ?case by simp
next
  case (Cons x xs)
  then obtain y ys' where ys: "ys = y # ys'" by (cases ys) auto
  have "set ys = set (x # xs)" using Cons.prems(2) by (rule mset_eq_setD)
  then have "y \<in> set (x # xs)" using ys by auto
  then have xy: "x \<le> y" using Cons.prems(1) by auto
  show ?case
  proof (cases "x = y")
    case True
    then have "mset ys' = mset xs" using Cons.prems(2) ys by simp
    then have "xs \<le> ys'" using Cons.IH Cons.prems(1) by simp
    then show ?thesis using True ys by simp
  next
    case False
    then show ?thesis using xy ys by simp
  qed
qed

lemma desc_lex_greatest:
  "sorted (rev xs) \<Longrightarrow> mset ys = mset xs \<Longrightarrow> (ys :: nat list) \<le> xs"
proof (induction xs arbitrary: ys)
  case Nil
  then show ?case by simp
next
  case (Cons x xs)
  then obtain y ys' where ys: "ys = y # ys'" by (cases ys) auto
  have s: "sorted (rev xs)" "\<forall>z \<in> set xs. z \<le> x"
    using Cons.prems(1) by (auto simp: sorted_append)
  have "set ys = set (x # xs)" using Cons.prems(2) by (rule mset_eq_setD)
  then have "y \<in> set (x # xs)" using ys by auto
  then have xy: "y \<le> x" using s by auto
  show ?case
  proof (cases "x = y")
    case True
    then have "mset ys' = mset xs" using Cons.prems(2) ys by simp
    then have "ys' \<le> xs" using Cons.IH s by simp
    then show ?thesis using True ys by simp
  next
    case False
    then show ?thesis using xy ys by simp
  qed
qed

lemma append_less_append: "pre @ x < pre @ y \<longleftrightarrow> x < (y :: nat list)"
  by (induction pre) simp_all

lemma append_le_append: "pre @ x \<le> pre @ y \<longleftrightarrow> x \<le> (y :: nat list)"
  by (induction pre) simp_all

lemma swap_pivot_props:
  assumes "sorted (rev d)" "d \<noteq> []" "a < hd d"
  shows "\<exists>b asc. swap_pivot a d = b # asc \<and> sorted asc \<and> a < b
           \<and> mset (b # asc) = mset (a # d) \<and> (\<forall>y \<in> set d. a < y \<longrightarrow> b \<le> y)"
proof -
  define rd where "rd = rev d"
  define lo where "lo = takeWhile (\<lambda>x. \<not> a < x) rd"
  define hi where "hi = dropWhile (\<lambda>x. \<not> a < x) rd"
  have srd: "sorted rd" using assms(1) by (simp add: rd_def)
  have "hd d \<in> set rd" using assms(2) by (simp add: rd_def)
  then have hi_ne: "hi \<noteq> []" using assms(3) by (auto simp: hi_def dropWhile_eq_Nil_conv)
  then obtain b hi' where hi: "hi = b # hi'" by (cases hi) auto
  have ab: "a < b" using hd_dropWhile[of "\<lambda>x. \<not> a < x" rd] hi_ne hi by (simp add: hi_def)
  have split: "rd = lo @ hi" by (simp add: lo_def hi_def)
  have lo_le: "\<forall>x \<in> set lo. x \<le> a" by (auto simp: lo_def dest: set_takeWhileD)
  have s_lo: "sorted lo" and s_hi: "sorted hi" using srd split by (auto simp: sorted_append)
  have hi_ge: "\<forall>x \<in> set hi'. b \<le> x" using s_hi hi by simp
  have lo_hi: "\<forall>x \<in> set lo. \<forall>y \<in> set hi'. x \<le> y"
    using lo_le hi_ge ab by fastforce
  have a_hi: "\<forall>y \<in> set hi'. a \<le> y" using hi_ge ab by fastforce
  have s_asc: "sorted (lo @ a # hi')"
    using s_lo s_hi hi lo_le lo_hi a_hi by (simp add: sorted_append)
  have m: "mset (b # lo @ a # hi') = mset (a # d)"
  proof -
    have "mset d = mset rd" by (simp add: rd_def)
    also have "\<dots> = mset lo + mset hi" by (simp add: split)
    finally show ?thesis by (simp add: hi)
  qed
  have least: "\<forall>y \<in> set d. a < y \<longrightarrow> b \<le> y"
  proof (intro ballI impI)
    fix y assume "y \<in> set d" "a < y"
    moreover have "set rd = set d" by (simp add: rd_def)
    moreover have "set rd = set lo \<union> set hi" by (subst split) simp
    ultimately have "y \<in> set lo \<union> set hi" by simp
    then have "y \<in> set hi" using lo_le \<open>a < y\<close> by auto
    then show "b \<le> y" using hi hi_ge by auto
  qed
  have "swap_pivot a d = b # lo @ a # hi'"
    by (simp add: swap_pivot_def Let_def rd_def[symmetric] lo_def[symmetric] hi_def[symmetric] hi)
  then show ?thesis using s_asc ab m least by blast
qed

lemma successor_least:
  fixes d asc :: "nat list"
  assumes "sorted (rev d)" "sorted asc" "a < b" "mset (b # asc) = mset (a # d)"
    "\<forall>y \<in> set d. a < y \<longrightarrow> b \<le> y"
  shows "mset r = mset (pre @ a # d) \<Longrightarrow> pre @ a # d < r \<Longrightarrow> pre @ b # asc \<le> r"
proof (induction pre arbitrary: r)
  case Nil
  then obtain y r' where r: "r = y # r'" by (cases r) auto
  have m: "mset (y # r') = mset (a # d)" using Nil.prems(1) r by simp
  have "\<not> (a = y \<and> d < r')"
  proof
    assume h: "a = y \<and> d < r'"
    then have "mset r' = mset d" using m by simp
    then have "r' \<le> d" using desc_lex_greatest[OF assms(1)] by simp
    then show False using h leD by blast
  qed
  then have ay: "a < y" using Nil.prems(2) r by auto
  have "set (y # r') = set (a # d)" using m by (rule mset_eq_setD)
  then have "y \<in> set (a # d)" by auto
  then have "y \<in> set d" using ay by auto
  then have b_le: "b \<le> y" using assms(5) ay by simp
  show ?case
  proof (cases "b = y")
    case True
    have "mset (y # r') = mset (b # asc)" by (simp only: m assms(4))
    then have "mset r' = mset asc" using True by simp
    then have "asc \<le> r'" using sorted_lex_least[OF assms(2)] by simp
    then show ?thesis using True r by simp
  next
    case False
    then show ?thesis using b_le r by simp
  qed
next
  case (Cons x pre)
  then obtain y r' where r: "r = y # r'" by (cases r) auto
  have c: "x < y \<or> (x = y \<and> pre @ a # d < r')" using Cons.prems(2) r by simp
  show ?case
  proof (cases "x < y")
    case True
    then show ?thesis using r by simp
  next
    case False
    then have xy: "x = y" and lt: "pre @ a # d < r'" using c by auto
    have "mset r' = mset (pre @ a # d)" using Cons.prems(1) r xy by simp
    then have "pre @ b # asc \<le> r'" using Cons.IH lt by simp
    then show ?thesis using r xy by simp
  qed
qed

lemma next_permutation_scan_spec:
  "sorted (rev d) \<Longrightarrow> d \<noteq> [] \<Longrightarrow> next_permutation_scan ra d = (has_next, q) \<Longrightarrow>
     (if has_next
      then \<exists>pre a d'. rev ra @ d = pre @ a # d' \<and> sorted (rev d') \<and> d' \<noteq> [] \<and> a < hd d'
                      \<and> q = pre @ swap_pivot a d'
      else sorted (rev (rev ra @ d)) \<and> q = rev (rev ra @ d))"
proof (induction ra arbitrary: d)
  case Nil
  then show ?case by auto
next
  case (Cons a r)
  show ?case
  proof (cases "a < hd d")
    case True
    then have "has_next" "q = rev r @ swap_pivot a d" using Cons.prems(3) by auto
    then show ?thesis using True Cons.prems(1,2) by auto
  next
    case False
    have "\<forall>z \<in> set d. z \<le> hd d"
      using Cons.prems(1,2) by (cases d) (auto simp: sorted_append)
    then have "\<forall>z \<in> set d. z \<le> a" using False by fastforce
    then have s: "sorted (rev (a # d))" using Cons.prems(1) by (auto simp: sorted_append)
    have "next_permutation_scan r (a # d) = (has_next, q)" using Cons.prems(3) False by simp
    from Cons.IH[OF s _ this] show ?thesis by (cases has_next) simp_all
  qed
qed

lemma next_permutation_True:
  assumes "next_permutation p = (True, q)"
  shows "mset q = mset p \<and> p < q \<and> (\<forall>r. mset r = mset p \<and> p < r \<longrightarrow> q \<le> r)"
proof -
  obtain l ra where rp: "rev p = l # ra" and sc: "next_permutation_scan ra [l] = (True, q)"
    using assms by (auto simp: next_permutation_def split: list.splits)
  have p: "p = rev ra @ [l]" using rp by (metis rev_rev_ident rev.simps(2))
  from next_permutation_scan_spec[OF _ _ sc]
  obtain pre a d where d: "rev ra @ [l] = pre @ a # d" "sorted (rev d)" "d \<noteq> []" "a < hd d"
      "q = pre @ swap_pivot a d"
    by auto
  from swap_pivot_props[OF d(2,3,4)]
  obtain b asc where b: "swap_pivot a d = b # asc" "sorted asc" "a < b"
      "mset (b # asc) = mset (a # d)" "\<forall>y \<in> set d. a < y \<longrightarrow> b \<le> y"
    by blast
  have pq: "p = pre @ a # d" "q = pre @ b # asc" using p d(1,5) b(1) by simp_all
  have 1: "mset q = mset p" using pq b(4) by simp
  have 2: "p < q" using pq b(3) by (simp add: append_less_append)
  have 3: "\<forall>r. mset r = mset p \<and> p < r \<longrightarrow> q \<le> r"
    using successor_least[OF d(2) b(2,3,4,5), of _ pre] pq by blast
  show ?thesis using 1 2 3 by blast
qed

lemma next_permutation_False:
  assumes "next_permutation p = (False, q)" "mset r = mset p"
  shows "r \<le> p"
proof (cases "rev p")
  case Nil
  then show ?thesis using assms(2) by simp
next
  case (Cons l ra)
  have p: "p = rev ra @ [l]" using Cons by (metis rev_rev_ident rev.simps(2))
  show ?thesis
  proof (cases ra)
    case Nil
    then show ?thesis using p assms(2) by (simp add: mset_single_iff_right)
  next
    case (Cons a ra')
    then have sc: "next_permutation_scan ra [l] = (False, q)"
      using assms(1) \<open>rev p = l # ra\<close> by (simp add: next_permutation_def)
    from next_permutation_scan_spec[OF _ _ sc] have "sorted (rev p)" using p by simp
    then show ?thesis using desc_lex_greatest assms(2) by blast
  qed
qed

text \<open>So each round of the loop of \<^verbatim>\<open>TSP\<close> leaves fewer permutations above the
  current one, and the loop ends.\<close>

lemma next_permutation_measure:
  assumes "next_permutation p = (True, q)"
  shows "card {r. mset r = mset q \<and> q < r} < card {r. mset r = mset p \<and> p < r}"
proof (rule psubset_card_mono)
  have "{r. mset r = mset p \<and> p < r} \<subseteq> {r. mset r = mset p}" by auto
  then show "finite {r. mset r = mset p \<and> p < r}"
    using mset_eq_finite by (rule finite_subset)
next
  from next_permutation_True[OF assms] have q: "mset q = mset p" "p < q" by simp_all
  have "q \<in> {r. mset r = mset p \<and> p < r}" using q by simp
  moreover have "q \<notin> {r. mset r = mset q \<and> q < r}" by simp
  moreover have "{r. mset r = mset q \<and> q < r} \<subseteq> {r. mset r = mset p \<and> p < r}"
    using q by auto
  ultimately show "{r. mset r = mset q \<and> q < r} \<subset> {r. mset r = mset p \<and> p < r}" by blast
qed

termination TSP_loop
proof (relation "measure (\<lambda>(weights, indices, min_path, best_indices).
                   card {r. mset r = mset indices \<and> indices < r})", goal_cases)
  case 1
  then show ?case by simp
next
  case (2 weights indices min_path best_indices c m' b' x has_next indices')
  then have "next_permutation indices = (True, indices')" by simp
  then show ?case using next_permutation_measure by simp
qed

declare TSP_loop.simps [simp del]

section \<open>Rounding to double precision\<close>

lemma bitlen_Bit0: "bitlen (numeral (Num.Bit0 n)) = bitlen (numeral n) + 1"
  by (subst compute_bitlen) simp

lemma bitlen_Bit1: "bitlen (numeral (Num.Bit1 n)) = bitlen (numeral n) + 1"
  by (subst compute_bitlen) simp

lemma bitlen_One: "bitlen 1 = 1"
  by (subst compute_bitlen) simp

lemmas to_double_eval = to_double_def round_half_even_def Let_def bitlen_Bit0 bitlen_Bit1 bitlen_One

lemma round_half_even_of_int: "round_half_even (of_int k) = k"
  by (simp add: round_half_even_def)

lemma to_double_0: "to_double 0 = Finite 0"
  by (simp add: to_double_eval)

text \<open>A real whose magnitude, in units of \<open>2\<^sup>-\<^sup>1\<^sup>0\<^sup>7\<^sup>4\<close>, is an integer \<open>m\<close> on the grid of its
  binade and below the overflow threshold is left as it is.\<close>

lemma to_double_scaled_int:
  fixes m :: int
  assumes a: "\<bar>x\<bar> * 2 ^ 1074 = of_int m"
    and ulp: "bitlen m \<le> 53 \<or> (\<exists>c. m = c * 2 ^ nat (bitlen m - 53))"
    and top: "m < 2 ^ 2098"
  shows "to_double x = Finite x"
proof -
  define u :: int where "u = (if bitlen m \<le> 53 then 1 else 2 ^ nat (bitlen m - 53))"
  have u0: "u \<noteq> 0" by (simp add: u_def)
  obtain c where c: "m = c * u"
  proof (cases "bitlen m \<le> 53")
    case True
    then have "m = m * u" by (simp add: u_def)
    then show ?thesis by (rule that)
  next
    case False
    then obtain c where "m = c * 2 ^ nat (bitlen m - 53)" using ulp by blast
    then have "m = c * u" using False by (simp add: u_def)
    then show ?thesis by (rule that)
  qed
  have "(of_int m :: real) / of_int u = of_int c" using u0 by (simp add: c)
  then have n: "round_half_even (of_int m / of_int u) * u = m"
    by (simp add: round_half_even_of_int c)
  have s: "sgn x * real_of_int m / 2 ^ 1074 = x"
  proof -
    have "sgn x * real_of_int m / 2 ^ 1074 = sgn x * \<bar>x\<bar>" by (simp add: a[symmetric])
    then show ?thesis by (simp add: sgn_mult_abs)
  qed
  have "to_double x =
      (if 2 ^ 2098 \<le> round_half_even (of_int m / of_int u) * u
       then (if x < 0 then MInf else PInf)
       else Finite (sgn x * of_int (round_half_even (of_int m / of_int u) * u) / 2 ^ 1074))"
    unfolding to_double_def Let_def a floor_of_int u_def by (rule refl)
  then show ?thesis unfolding n using top s by simp
qed

text \<open>Every finite double, \<open>\<plusminus> k \<cdot> 2\<^sup>i / 2\<^sup>1\<^sup>0\<^sup>7\<^sup>4\<close> with \<open>k\<close> of at most \<open>53\<close> bits and
  \<open>k \<cdot> 2\<^sup>i < 2\<^sup>2\<^sup>0\<^sup>9\<^sup>8\<close>, rounds to itself: reading a matrix entry that is the value of a double
  through \<open>to_double\<close> does not change it.\<close>

lemma to_double_representable:
  fixes k :: int and i :: nat
  assumes b53: "bitlen \<bar>k\<bar> \<le> 53" and top: "bitlen \<bar>k\<bar> + int i \<le> 2098"
  shows "to_double (of_int k * 2 ^ i / 2 ^ 1074) = Finite (of_int k * 2 ^ i / 2 ^ 1074)"
proof (cases "k = 0")
  case True
  then show ?thesis by (simp add: to_double_0)
next
  case False
  then have kpos: "0 < \<bar>k\<bar>" by simp
  define m where "m = \<bar>k\<bar> * 2 ^ i"
  define b where "b = nat (bitlen \<bar>k\<bar>)"
  have bl: "bitlen \<bar>k\<bar> = int b" by (simp add: b_def bitlen_nonneg)
  have L: "bitlen m = int b + int i" unfolding m_def by (simp add: bitlen_pow2[OF kpos] bl)
  have b: "b \<le> 53" "b + i \<le> 2098" using b53 top by (simp_all add: bl)
  have klt: "\<bar>k\<bar> < 2 ^ b" using bitlen_bounds[OF kpos] by (simp add: b_def)
  show ?thesis
  proof (rule to_double_scaled_int[where m = m])
    show "\<bar>real_of_int k * 2 ^ i / 2 ^ 1074\<bar> * 2 ^ 1074 = real_of_int m"
      by (simp add: m_def abs_mult)
    show "bitlen m \<le> 53 \<or> (\<exists>c. m = c * 2 ^ nat (bitlen m - 53))"
    proof (cases "bitlen m \<le> 53")
      case True
      then show ?thesis by simp
    next
      case False
      then have gt: "53 < b + i" by (simp add: L)
      have u: "nat (bitlen m - 53) = b + i - 53" by (simp add: L nat_diff_distrib')
      have "i = (53 - b) + (b + i - 53)" using b gt by simp
      then have "(2::int) ^ i = 2 ^ (53 - b) * 2 ^ (b + i - 53)"
        by (metis power_add)
      then have "m = (\<bar>k\<bar> * 2 ^ (53 - b)) * 2 ^ (b + i - 53)"
        by (simp add: m_def)
      then have "\<exists>c. m = c * 2 ^ (b + i - 53)" by (rule exI)
      then show ?thesis unfolding u by (rule disjI2)
    qed
    have "m < 2 ^ b * 2 ^ i" unfolding m_def using klt by simp
    also have "\<dots> = 2 ^ (b + i)" by (simp add: power_add)
    also have "\<dots> \<le> (2::int) ^ 2098" using b(2) by (rule power_increasing) simp
    finally show "m < 2 ^ 2098" .
  qed
qed

lemma to_double_of_int:
  assumes "\<bar>k\<bar> < 2 ^ 53"
  shows "to_double (of_int k) = Finite (of_int k)"
proof -
  have "bitlen \<bar>k\<bar> \<le> 53" using assms by (simp add: bitlen_le_iff_power)
  then show ?thesis using to_double_representable[of k 1074] by simp
qed

lemma to_double_numeral:
  "numeral w < (2::int) ^ 53 \<Longrightarrow> to_double (numeral w) = Finite (numeral w)"
  using to_double_of_int[of "numeral w"] by simp

lemma to_double_1: "to_double 1 = Finite 1"
  using to_double_of_int[of 1] by simp

lemma DBL_MAX_scaled: "DBL_MAX = of_int (2 ^ 53 - 1) * 2 ^ 2045 / 2 ^ 1074"
  by (simp add: DBL_MAX_def)

lemma to_double_DBL_MAX: "to_double DBL_MAX = Finite DBL_MAX"
  unfolding DBL_MAX_scaled
  by (rule to_double_representable) (simp_all add: bitlen_Bit0 bitlen_Bit1 bitlen_One)

text \<open>From \<open>2\<^sup>5\<^sup>3\<close> on the doubles are two apart: \<open>2\<^sup>5\<^sup>3 + 1\<close> is halfway between two of them
  and goes to the one with the even significand, \<open>2\<^sup>5\<^sup>3\<close>.\<close>

lemma to_double_2_53: "to_double 9007199254740992 = Finite 9007199254740992"
  by (simp add: to_double_eval)

lemma to_double_2_53_plus_1: "to_double 9007199254740993 = Finite 9007199254740992"
  by (simp add: to_double_eval)

lemma to_double_2_53_plus_2: "to_double 9007199254740994 = Finite 9007199254740994"
  by (simp add: to_double_eval)


lemma DBL_MAX_large: "1000 < DBL_MAX"
  by (simp add: DBL_MAX_def)

lemma DBL_MAX_above_2_54: "18014398509481984 < DBL_MAX"
  by (simp add: DBL_MAX_def)

text \<open>The comparison of doubles as a comparison of keys.\<close>

lemma double_key_inj: "double_key a = double_key b \<longleftrightarrow> a = b"
  by (cases a; cases b) simp_all

lemma dless_key: "m \<noteq> NaN \<Longrightarrow> dless c m \<longleftrightarrow> double_key c < double_key m"
  by (cases c; cases m) simp_all

lemma dless_imp_key: "dless a b \<Longrightarrow> double_key a < double_key b"
  by (cases a; cases b) simp_all

lemma dless_not_NaN: "dless a b \<Longrightarrow> a \<noteq> NaN"
  by (cases a; cases b) simp_all

section \<open>The loop of TSP\<close>

lemma first_min_single: "first_min cost {p} m best (if cost p < m then p else best)"
  by (simp add: first_min_def)

lemma first_min_insert:
  assumes "\<forall>q \<in> S. p < q"
    and "first_min cost S (if cost p < m then cost p else m) (if cost p < m then p else best) r"
  shows "first_min cost (insert p S) m best r"
proof (cases "cost p < m")
  case True
  then have fm: "first_min cost S (cost p) p r" using assms(2) by simp
  show ?thesis
  proof (cases "\<exists>q \<in> S. cost q < cost p")
    case ex: True
    then have r: "r \<in> S" "cost r < cost p" "\<forall>q \<in> S. cost r \<le> cost q"
        "\<forall>q \<in> S. cost q = cost r \<longrightarrow> r \<le> q"
      using fm by (simp_all add: first_min_def)
    have "cost r < m" using r(2) True by simp
    then show ?thesis using r True unfolding first_min_def by auto
  next
    case False
    then have r: "r = p" using fm by (simp add: first_min_def)
    have "\<forall>q \<in> S. cost p \<le> cost q" using False by (auto simp: not_less)
    then show ?thesis using r True assms(1) unfolding first_min_def by (auto simp: less_imp_le)
  qed
next
  case False
  then have fm: "first_min cost S m best r" using assms(2) by simp
  show ?thesis
  proof (cases "\<exists>q \<in> S. cost q < m")
    case ex: True
    then have r: "r \<in> S" "cost r < m" "\<forall>q \<in> S. cost r \<le> cost q"
        "\<forall>q \<in> S. cost q = cost r \<longrightarrow> r \<le> q"
      using fm by (simp_all add: first_min_def)
    have "cost r < cost p" using r(2) False by simp
    then show ?thesis using r ex unfolding first_min_def by auto
  next
    case nex: False
    then have "r = best" using fm by (simp add: first_min_def)
    then show ?thesis using nex False unfolding first_min_def by auto
  qed
qed

lemma elem_at2_ok: "shape m w \<Longrightarrow> i < m \<Longrightarrow> j < m \<Longrightarrow> elem_at2 w i j = Inr (w ! i ! j)"
  by (simp add: elem_at2_def elem_at_def shape_def)

lemma path_weight_fold:
  "shape m w \<Longrightarrow> k < m \<Longrightarrow> \<forall>v \<in> set vs. v < m \<Longrightarrow>
   path_weight w k vs acc =
     Inr (fold (\<lambda>(a, b) acc. dadd acc (to_double (w ! a ! b))) (zip (k # vs) (vs @ [0])) acc)"
proof (induction vs arbitrary: k acc)
  case Nil
  then have "0 < m" by simp
  then show ?case using Nil by (simp add: elem_at2_ok)
next
  case (Cons v vs)
  then show ?case by (simp add: elem_at2_ok)
qed

lemma path_weight_computed_cost:
  "shape m w \<Longrightarrow> 0 < m \<Longrightarrow> \<forall>v \<in> set vs. v < m \<Longrightarrow>
   path_weight w 0 vs (Finite 0) = Inr (computed_cost w vs)"
  by (simp add: path_weight_fold computed_cost_def)

lemma TSP_loop_spec:
  assumes "\<And>q. mset q = mset p0 \<Longrightarrow> path_weight w 0 q (Finite 0) = Inr (cost q)"
  shows "mset p = mset p0 \<Longrightarrow> m \<noteq> NaN \<Longrightarrow>
    \<exists>r. TSP_loop w p m best = Inr r
      \<and> first_min (\<lambda>q. double_key (cost q)) {q. mset q = mset p0 \<and> p \<le> q} (double_key m) best r"
  using assms
proof (induction w p m best rule: TSP_loop.induct)
  case (1 w p m best)
  have pw: "path_weight w 0 p (Finite 0) = Inr (cost p)" using "1.prems" by simp
  define K where "K = (\<lambda>q. double_key (cost q))"
  define m' where "m' = (if dless (cost p) m then cost p else m)"
  define b' where "b' = (if dless (cost p) m then p else best)"
  have lt: "dless (cost p) m \<longleftrightarrow> K p < double_key m"
    using dless_key[OF "1.prems"(2)] by (simp add: K_def)
  have m'N: "m' \<noteq> NaN" using "1.prems"(2) dless_not_NaN by (auto simp: m'_def)
  have km: "double_key m' = (if K p < double_key m then K p else double_key m)"
    by (simp add: m'_def lt) (simp add: K_def)
  have kb: "b' = (if K p < double_key m then p else best)" by (simp add: b'_def lt)
  obtain has_next p' where np: "next_permutation p = (has_next, p')" by (cases "next_permutation p")
  show ?case
  proof (cases has_next)
    case False
    have npF: "next_permutation p = (False, p')" using np False by simp
    have "\<And>q. mset q = mset p0 \<Longrightarrow> q \<le> p"
      using next_permutation_False[OF npF] "1.prems"(1) by simp
    then have S: "{q. mset q = mset p0 \<and> p \<le> q} = {p}"
      using "1.prems"(1) by (auto intro: antisym)
    have res: "TSP_loop w p m best = Inr b'"
      using pw np False by (subst TSP_loop.simps) (simp add: b'_def)
    have "first_min K {p} (double_key m) best b'" unfolding kb by (rule first_min_single)
    then show ?thesis unfolding S K_def using res by blast
  next
    case True
    have npT: "next_permutation p = (True, p')" using np True by simp
    from next_permutation_True[OF npT]
    have p': "mset p' = mset p" "p < p'" "\<And>r. mset r = mset p \<Longrightarrow> p < r \<Longrightarrow> p' \<le> r" by auto
    have S: "{q. mset q = mset p0 \<and> p \<le> q} = insert p {q. mset q = mset p0 \<and> p' \<le> q}"
      using p' "1.prems"(1) by (auto simp: le_less)
    have less: "\<forall>q \<in> {q. mset q = mset p0 \<and> p' \<le> q}. p < q" using p'(2) by auto
    have "mset p' = mset p0" using p'(1) "1.prems"(1) by simp
    from "1.IH"[OF pw refl refl np[symmetric] refl True this m'N[unfolded m'_def] "1.prems"(3)]
    obtain r where r: "TSP_loop w p' m' b' = Inr r"
        "first_min K {q. mset q = mset p0 \<and> p' \<le> q} (double_key m') b' r"
      unfolding m'_def b'_def K_def by blast
    have "TSP_loop w p m best = Inr r"
      using pw np True r(1) by (subst TSP_loop.simps) (simp add: m'_def b'_def)
    moreover have "first_min K {q. mset q = mset p0 \<and> p \<le> q} (double_key m) best r"
      unfolding S using less r(2)[unfolded km kb] by (rule first_min_insert)
    ultimately show ?thesis unfolding K_def by blast
  qed
qed

lemma TSP_indices_upt:
  "even sz \<Longrightarrow> even i \<Longrightarrow> i \<le> sz \<Longrightarrow> TSP_indices sz i = [i div 2 + 1..<sz div 2 + 1]"
proof (induction sz i rule: TSP_indices.induct)
  case (1 sz i)
  show ?case
  proof (cases "i < sz")
    case True
    then have "i + 2 \<le> sz" using "1.prems" by (auto elim!: evenE)
    then have ih: "TSP_indices sz (i + 2) = [(i + 2) div 2 + 1..<sz div 2 + 1]"
      using "1.IH"[OF True] "1.prems" by simp
    have "i div 2 + 1 < sz div 2 + 1" using True "1.prems" by (auto elim!: evenE)
    then have "[i div 2 + 1..<sz div 2 + 1] = (i div 2 + 1) # [(i + 2) div 2 + 1..<sz div 2 + 1]"
      by (simp add: upt_conv_Cons)
    then show ?thesis using True ih by (subst TSP_indices.simps) simp
  next
    case False
    then have "i = sz" using "1.prems" by simp
    then show ?thesis by (subst TSP_indices.simps) simp
  qed
qed

lemma tours_in_range:
  assumes "mset q = mset [1..<n + 1]"
  shows "\<forall>v \<in> set q. 1 \<le> v \<and> v < n + 1"
proof -
  have "set q = set [1..<n + 1]" using assms by (rule mset_eq_setD)
  then show ?thesis by auto
qed

lemma Suc_pred_tour:
  assumes "mset q = mset [1..<n + 1]"
  shows "map Suc (map (\<lambda>element. element - 1) q) = q"
  unfolding map_map using tours_in_range[OF assms] by (intro map_idI) auto


lemma TSP_loop_from_sorted:
  assumes len: "length (points_to_visit t) = 2 * n"
    and sh: "shape (n + 1) w"
  shows "\<exists>r. TSP w t = Inr (map (\<lambda>element. element - 1) r)
           \<and> first_min (\<lambda>q. double_key (computed_cost w q)) {q. mset q = mset [1..<n + 1]}
                (double_key (Finite DBL_MAX)) [] r"
proof -
  define p0 where "p0 = [1..<n + 1]"
  have ind: "TSP_indices (length (points_to_visit t)) 0 = p0"
    using TSP_indices_upt[of "2 * n" 0] len by (simp add: p0_def)
  have pw: "path_weight w 0 q (Finite 0) = Inr (computed_cost w q)" if "mset q = mset p0" for q
  proof (rule path_weight_computed_cost[OF sh])
    show "0 < n + 1" by simp
    show "\<forall>v \<in> set q. v < n + 1" using tours_in_range[of q n] that by (simp add: p0_def)
  qed
  have sp: "sorted p0" unfolding p0_def by (rule sorted_upt)
  have least: "\<And>q. mset q = mset p0 \<Longrightarrow> p0 \<le> q"
    using sorted_lex_least[OF sp] by simp
  have S: "{q. mset q = mset p0 \<and> p0 \<le> q} = {q. mset q = mset p0}" using least by auto
  have "Finite DBL_MAX \<noteq> NaN" by simp
  from TSP_loop_spec[of p0 w "computed_cost w" p0 "Finite DBL_MAX" "[]", OF pw refl this]
  obtain r where r: "TSP_loop w p0 (Finite DBL_MAX) [] = Inr r"
      "first_min (\<lambda>q. double_key (computed_cost w q)) {q. mset q = mset p0}
         (double_key (Finite DBL_MAX)) [] r"
    unfolding S by blast
  have "TSP w t = Inr (map (\<lambda>element. element - 1) r)" by (simp add: TSP_def ind r(1))
  then show ?thesis using r(2) unfolding p0_def by blast
qed

lemma TSP_spec:
  assumes len: "length (points_to_visit t) = 2 * n"
    and sh: "shape (n + 1) w"
    and ex: "\<exists>p. mset p = mset [1..<n + 1] \<and> dless (computed_cost w p) (Finite DBL_MAX)"
  shows "\<exists>r. TSP w t = Inr (map (\<lambda>element. element - 1) r)
           \<and> mset r = mset [1..<n + 1]
           \<and> dless (computed_cost w r) (Finite DBL_MAX)
           \<and> (\<forall>q. mset q = mset [1..<n + 1] \<longrightarrow> \<not> dless (computed_cost w q) (computed_cost w r))
           \<and> (\<forall>q. mset q = mset [1..<n + 1] \<and> computed_cost w q = computed_cost w r \<longrightarrow> r \<le> q)"
proof -
  define K where "K = (\<lambda>q. double_key (computed_cost w q))"
  define S where "S = {q. mset q = mset [1..<n + 1]}"
  define B where "B = double_key (Finite DBL_MAX)"
  from TSP_loop_from_sorted[OF len sh]
  obtain r where r: "TSP w t = Inr (map (\<lambda>element. element - 1) r)" "first_min K S B [] r"
    unfolding K_def S_def B_def by blast
  have "\<exists>q \<in> S. K q < B" using ex dless_imp_key unfolding K_def S_def B_def by blast
  then have fm: "r \<in> S" "K r < B" "\<forall>q \<in> S. K r \<le> K q" "\<forall>q \<in> S. K q = K r \<longrightarrow> r \<le> q"
    using r(2) unfolding first_min_def by simp_all
  have 1: "mset r = mset [1..<n + 1]" using fm(1) by (simp add: S_def)
  have 2: "dless (computed_cost w r) (Finite DBL_MAX)"
    using fm(2) dless_key[of "Finite DBL_MAX" "computed_cost w r"] by (simp add: K_def B_def)
  have 3: "\<not> dless (computed_cost w q) (computed_cost w r)" if "mset q = mset [1..<n + 1]" for q
  proof
    assume "dless (computed_cost w q) (computed_cost w r)"
    then have "K q < K r" unfolding K_def by (rule dless_imp_key)
    moreover have "K r \<le> K q" using fm(3) that by (simp add: S_def)
    ultimately show False by simp
  qed
  have 4: "r \<le> q" if "mset q = mset [1..<n + 1]" "computed_cost w q = computed_cost w r" for q
    using fm(4) that by (simp add: S_def K_def)
  show ?thesis using r(1) 1 2 3 4 by blast
qed

lemma TSP_no_tour_below_DBL_MAX:
  assumes len: "length (points_to_visit t) = 2 * n"
    and sh: "shape (n + 1) w"
    and nex: "\<forall>p. mset p = mset [1..<n + 1] \<longrightarrow> \<not> dless (computed_cost w p) (Finite DBL_MAX)"
  shows "TSP w t = Inr []"
proof -
  define K where "K = (\<lambda>q. double_key (computed_cost w q))"
  define S where "S = {q. mset q = mset [1..<n + 1]}"
  define B where "B = double_key (Finite DBL_MAX)"
  from TSP_loop_from_sorted[OF len sh]
  obtain r where r: "TSP w t = Inr (map (\<lambda>element. element - 1) r)" "first_min K S B [] r"
    unfolding K_def S_def B_def by blast
  have "\<not> (\<exists>q \<in> S. K q < B)"
    using nex dless_key[of "Finite DBL_MAX"] unfolding K_def S_def B_def by simp
  then have "r = []" using r(2) unfolding first_min_def by simp
  then show ?thesis using r(1) by simp
qed

lemmas TSP_eval = TSP_def TSP_indices.simps TSP_loop.simps next_permutation_def swap_pivot_def
  elem_at2_def elem_at_def to_double_0 to_double_1 to_double_numeral to_double_DBL_MAX

section \<open>Properties of calculateWeights\<close>

text \<open>
  Claim C3. For an even-length coordinate list of \<open>n\<close> waypoints and any vehicle position,
  \<^verbatim>\<open>calculateWeights\<close> returns an \<open>(n+1) \<times> (n+1)\<close> matrix that is symmetric, has a zero
  diagonal and has no negative entry, provided the range function is non-negative. The
  symmetry of the range function and its being zero between equal points are not needed:
  the code writes the same \<open>r\<close> to both mirrored cells and the literal \<open>0\<close> to the
  diagonal.
\<close>

theorem calculateWeights_symmetric_zero_diagonal_nonneg:
  assumes "even (length (points_to_visit t))"
    and "\<forall>a b c d. 0 \<le> rng a b c d"
  shows "\<exists>M. calculateWeights rng t = Inr M
           \<and> length M = length (points_to_visit t) div 2 + 1
           \<and> (\<forall>row \<in> set M. length row = length (points_to_visit t) div 2 + 1)
           \<and> (\<forall>i \<le> length (points_to_visit t) div 2. \<forall>j \<le> length (points_to_visit t) div 2.
                 M ! i ! j = M ! j ! i \<and> 0 \<le> M ! i ! j)
           \<and> (\<forall>i \<le> length (points_to_visit t) div 2. M ! i ! i = 0)"
proof -
  obtain M where M: "calculateWeights rng t = Inr M"
      "weights_inv True (length (points_to_visit t) div 2 + 1) M"
    using calculateWeights_inv[OF assms(1), of True rng] assms(2) by blast
  show ?thesis
    using M unfolding weights_inv_def shape_def
    by (intro exI[of _ M]) (simp add: less_Suc_eq_le)
qed

lemma example_task_size:
  "even (length (points_to_visit example_task))" "length (points_to_visit example_task) div 2 = 2"
  by (simp_all add: example_task_def)

theorem calculateWeights_symmetric_zero_diagonal_nonneg_witness:
  "even (length (points_to_visit example_task))
   \<and> (\<forall>a b c d. 0 \<le> manhattan a b c d)
   \<and> (\<exists>M. calculateWeights manhattan example_task = Inr M
           \<and> length M = 3 \<and> (\<forall>row \<in> set M. length row = 3)
           \<and> (\<forall>i \<le> 2. \<forall>j \<le> 2. M ! i ! j = M ! j ! i \<and> 0 \<le> M ! i ! j)
           \<and> (\<forall>i \<le> 2. M ! i ! i = 0))"
proof -
  have h2: "\<forall>a b c d. 0 \<le> manhattan a b c d" by (simp add: manhattan_def)
  show ?thesis
    using example_task_size(1) h2
      calculateWeights_symmetric_zero_diagonal_nonneg[OF example_task_size(1) h2,
        unfolded example_task_size(2)]
    by simp
qed

section \<open>Bounds of the indexing operations\<close>

lemma createPlan_ok:
  assumes "\<forall>x \<in> set indices. x * 2 + 1 < length (points_to_visit t)"
  shows "\<exists>t'. createPlan indices t = Inr t'"
  by (simp add: createPlan_def createPlan_loop_spec[OF assms] Let_def)

text \<open>
  Claim C8. When the stored coordinate list has even length \<open>2n\<close>, no read or write of
  \<^verbatim>\<open>calculateWeights\<close> leaves its vector, and none of \<^verbatim>\<open>createPlan\<close> does for a route
  whose entries are below \<open>n\<close>: both return a value and never \<open>Inl OutOfBounds\<close>.
\<close>

theorem indexing_within_bounds:
  assumes "even (length (points_to_visit t))"
  shows "(\<exists>M. calculateWeights rng t = Inr M)
         \<and> (\<forall>indices. (\<forall>x \<in> set indices. x < length (points_to_visit t) div 2)
               \<longrightarrow> (\<exists>t'. createPlan indices t = Inr t'))"
proof (intro conjI allI impI)
  show "\<exists>M. calculateWeights rng t = Inr M"
    using calculateWeights_inv[OF assms, of False rng] by blast
next
  fix indices assume b: "\<forall>x \<in> set indices. x < length (points_to_visit t) div 2"
  have "\<forall>x \<in> set indices. x * 2 + 1 < length (points_to_visit t)"
  proof
    fix x assume "x \<in> set indices"
    then have "x < length (points_to_visit t) div 2" using b by simp
    then show "x * 2 + 1 < length (points_to_visit t)" using assms by (auto elim!: evenE)
  qed
  then show "\<exists>t'. createPlan indices t = Inr t'" by (rule createPlan_ok)
qed

theorem indexing_within_bounds_witness:
  "even (length (points_to_visit example_task))
   \<and> (1::nat) < length (points_to_visit example_task) div 2
   \<and> (0::nat) < length (points_to_visit example_task) div 2
   \<and> (\<exists>M. calculateWeights manhattan example_task = Inr M)
   \<and> (\<exists>t'. createPlan [1, 0] example_task = Inr t')"
proof -
  have h2: "\<forall>x \<in> set [1, 0]. x < length (points_to_visit example_task) div 2"
    by (simp add: example_task_size(2))
  show ?thesis
    using example_task_size h2 indexing_within_bounds[OF example_task_size(1), of manhattan]
    by simp
qed

section \<open>The two versions of calculateWeights\<close>

lemmas calculateWeights_eval = calculateWeights_def calculateWeights_outer.simps
  calculateWeights_inner.simps read_point_def elem_at_def store_at2_def

lemmas Task_cpp_calculateWeights_eval = Task_cpp_calculateWeights_def
  Task_cpp_calculateWeights_outer.simps Task_cpp_calculateWeights_inner.simps
  read_point_def elem_at_def store_at2_def

text \<open>
  Claim C10 says that the matrix written by \<^verbatim>\<open>calculateWeights\<close> of
  \<^verbatim>\<open>src/Tutorial/PlanVisit/Task.cpp\<close> into a zero \<open>(n+1) \<times> (n+1)\<close> matrix equals the one
  part\_000 returns. With the vehicle at \<open>(0, 0)\<close> and the single waypoint \<open>(1, 0)\<close>,
  part\_000 stores the range from the vehicle to the waypoint in cells \<open>(0, 1)\<close> and
  \<open>(1, 0)\<close>, whereas Task.cpp stores it in cell \<open>(0, 0)\<close> and then overwrites it with
  the diagonal zero: the two matrices differ as soon as that range is not zero.
\<close>

theorem calculateWeights_variants_differ:
  "calculateWeights rng (t\<lparr>points_to_visit := [1, 0], m_auv_lat := 0, m_auv_lon := 0\<rparr>)
     = Inr [[0, rng 0 0 1 0], [rng 0 0 1 0, 0]]
   \<and> Task_cpp_calculateWeights rng 0 0 [1, 0] [[0, 0], [0, 0]] = Inr [[0, 0], [0, 0]]"
  by (simp add: calculateWeights_eval Task_cpp_calculateWeights_eval)

section \<open>Properties of TSP\<close>

text \<open>The costs of the example tours, exact and as computed.\<close>

lemma example_task_facts:
  "length (points_to_visit example_task) = 2 * 2"
  "length (points_to_visit one_waypoint_task) = 2 * 1"
  by (simp_all add: example_task_def one_waypoint_task_def)

lemmas cost_eval = computed_cost_def to_double_0 to_double_1 to_double_numeral to_double_DBL_MAX

lemma detour_weights_facts:
  "length (points_to_visit example_task) = 2 * 2"
  "shape (2 + 1) detour_weights"
  "\<exists>p. mset p = mset [1..<2 + 1] \<and> dless (computed_cost detour_weights p) (Finite DBL_MAX)"
proof -
  show "length (points_to_visit example_task) = 2 * 2" by (rule example_task_facts)
  show "shape (2 + 1) detour_weights" by (simp add: shape_def detour_weights_def)
  have "mset [1, 2] = mset [1..<2 + 1]
        \<and> dless (computed_cost detour_weights [1, 2]) (Finite DBL_MAX)"
    using DBL_MAX_large by (simp add: cost_eval upt_rec detour_weights_def)
  then show "\<exists>p. mset p = mset [1..<2 + 1]
      \<and> dless (computed_cost detour_weights p) (Finite DBL_MAX)"
    by (rule exI)
qed

lemma example_weights_facts:
  "length (points_to_visit example_task) = 2 * 2"
  "shape (2 + 1) example_weights"
  "\<exists>p. mset p = mset [1..<2 + 1] \<and> dless (computed_cost example_weights p) (Finite DBL_MAX)"
proof -
  show "length (points_to_visit example_task) = 2 * 2" by (rule example_task_facts)
  show "shape (2 + 1) example_weights" by (simp add: shape_def example_weights_def)
  have "mset [1, 2] = mset [1..<2 + 1]
        \<and> dless (computed_cost example_weights [1, 2]) (Finite DBL_MAX)"
    using DBL_MAX_large by (simp add: cost_eval upt_rec example_weights_def)
  then show "\<exists>p. mset p = mset [1..<2 + 1]
      \<and> dless (computed_cost example_weights p) (Finite DBL_MAX)"
    by (rule exI)
qed


text \<open>
  Claim C1 says that for every \<open>n \<ge> 1\<close> and every \<open>(n+1) \<times> (n+1)\<close> matrix the visiting
  order returned by \<^verbatim>\<open>TSP\<close> attains the minimum cycle cost over all permutations of the
  \<open>n\<close> waypoint vertices, an exact global optimum. Three inputs show otherwise.

  With two waypoints and \<open>M[0][1] = M[0][2] = 2\<^sup>5\<^sup>3\<close>, \<open>M[1][2] = 1\<close>, all other entries
  zero, the order \<open>1, 2\<close> costs \<open>2\<^sup>5\<^sup>3 + 1\<close> and the order \<open>2, 1\<close> costs \<open>2\<^sup>5\<^sup>3\<close>. In double
  precision the first sum rounds to \<open>2\<^sup>5\<^sup>3\<close>, the second order is not below it, and
  \<^verbatim>\<open>TSP\<close> returns \<open>[0, 1]\<close>, the order \<open>1, 2\<close>, which is not the cheaper one.

  With one waypoint and \<open>M[0][1] = DBL_MAX\<close>, the only tour costs \<^verbatim>\<open>DBL_MAX\<close>, which is
  not below the initial \<^verbatim>\<open>min_path = DBL_MAX\<close>: nothing is ever kept and \<^verbatim>\<open>TSP\<close>
  returns the empty route, which is not a permutation of the waypoint.

  With one waypoint and \<open>M[0][1] = 2\<close>, \<open>M[1][0] = 3\<close> the route returned is \<open>[0]\<close>, the
  waypoint's index and not its vertex: taken as a vertex sequence it costs
  \<open>M[0][0] + M[0][0] = 0\<close>, while the only tour, through vertex \<open>1\<close>, costs \<open>5\<close>.
\<close>

theorem TSP_returns_optimal_tour_counterexample:
  "length (points_to_visit example_task) = 2 * 2
   \<and> shape (2 + 1) rounding_weights
   \<and> TSP rounding_weights example_task = Inr [0, 1]
   \<and> mset (map Suc [0, 1]) = mset [1..<2 + 1]
   \<and> mset [2, 1] = mset [1..<2 + 1]
   \<and> cycle_cost rounding_weights [2, 1] = 2 ^ 53
   \<and> cycle_cost rounding_weights (map Suc [0, 1]) = 2 ^ 53 + 1
   \<and> length (points_to_visit one_waypoint_task) = 2 * 1
   \<and> shape (1 + 1) sentinel_weights
   \<and> TSP sentinel_weights one_waypoint_task = Inr []
   \<and> mset (map Suc []) \<noteq> mset [1..<1 + 1]
   \<and> shape (1 + 1) plain_weights
   \<and> TSP plain_weights one_waypoint_task = Inr [0]
   \<and> cycle_cost plain_weights [0] = 0
   \<and> cycle_cost plain_weights [1] = 5"
proof -
  have rounding: "TSP rounding_weights example_task = Inr [0, 1]"
    using DBL_MAX_above_2_54
    by (simp add: TSP_eval to_double_2_53 to_double_2_53_plus_1 example_task_def
        rounding_weights_def)
  have sentinel: "TSP sentinel_weights one_waypoint_task = Inr []"
    by (simp add: TSP_eval one_waypoint_task_def sentinel_weights_def)
  have plain: "TSP plain_weights one_waypoint_task = Inr [0]"
    using DBL_MAX_large by (simp add: TSP_eval one_waypoint_task_def plain_weights_def)
  show ?thesis
    using rounding sentinel plain
    by (simp add: example_task_facts shape_def rounding_weights_def sentinel_weights_def
        plain_weights_def cycle_cost_def upt_rec)
qed

text \<open>
  Claim C1, amended. The cost of a tour is taken as \<^verbatim>\<open>TSP\<close> computes it: the matrix
  entries along the tour added one by one, in double precision, to a sum that starts at
  \<open>0\<close>. For \<open>n\<close> waypoints and an \<open>(n+1) \<times> (n+1)\<close> matrix in which at least one tour has a
  computed cost less than \<^verbatim>\<open>DBL_MAX\<close>, \<^verbatim>\<open>TSP\<close> returns a route whose entries, each read
  as the matrix vertex one above it, form a permutation of the vertices \<open>1..n\<close>, and no
  permutation of these vertices has a smaller computed cost.
\<close>

theorem TSP_returns_optimal_tour:
  assumes "length (points_to_visit t) = 2 * n"
    and "shape (n + 1) M"
    and "\<exists>p. mset p = mset [1..<n + 1] \<and> dless (computed_cost M p) (Finite DBL_MAX)"
  shows "\<exists>route. TSP M t = Inr route
           \<and> mset (map Suc route) = mset [1..<n + 1]
           \<and> (\<forall>v. mset v = mset [1..<n + 1]
                 \<longrightarrow> \<not> dless (computed_cost M v) (computed_cost M (map Suc route)))"
proof -
  from TSP_spec[OF assms] obtain r where r: "TSP M t = Inr (map (\<lambda>element. element - 1) r)"
      "mset r = mset [1..<n + 1]"
      "\<forall>q. mset q = mset [1..<n + 1] \<longrightarrow> \<not> dless (computed_cost M q) (computed_cost M r)"
    by blast
  show ?thesis
    using r
    by (intro exI[of _ "map (\<lambda>element. element - 1) r"])
       (simp only: Suc_pred_tour[OF r(2)] simp_thms)
qed

text \<open>For \<open>detour_weights\<close> the order \<open>1, 2\<close>, visited first, costs \<open>6\<close> and the order
  \<open>2, 1\<close> costs \<open>3\<close>: the route returned is the second one.\<close>

theorem TSP_returns_optimal_tour_witness:
  "length (points_to_visit example_task) = 2 * 2
   \<and> shape (2 + 1) detour_weights
   \<and> (\<exists>p. mset p = mset [1..<2 + 1] \<and> dless (computed_cost detour_weights p) (Finite DBL_MAX))
   \<and> computed_cost detour_weights [1, 2] = Finite 6
   \<and> computed_cost detour_weights [2, 1] = Finite 3
   \<and> TSP detour_weights example_task = Inr [1, 0]
   \<and> (\<exists>route. TSP detour_weights example_task = Inr route
           \<and> mset (map Suc route) = mset [1..<2 + 1]
           \<and> (\<forall>v. mset v = mset [1..<2 + 1]
                 \<longrightarrow> \<not> dless (computed_cost detour_weights v)
                            (computed_cost detour_weights (map Suc route))))"
proof -
  have c12: "computed_cost detour_weights [1, 2] = Finite 6"
    by (simp add: cost_eval detour_weights_def)
  have c21: "computed_cost detour_weights [2, 1] = Finite 3"
    by (simp add: cost_eval detour_weights_def)
  have res: "TSP detour_weights example_task = Inr [1, 0]"
    using DBL_MAX_large by (simp add: TSP_eval example_task_def detour_weights_def)
  show ?thesis
    by (intro conjI detour_weights_facts c12 c21 res
        TSP_returns_optimal_tour[OF detour_weights_facts])
qed

text \<open>
  Claim C6 says that whenever two or more permutations attain the minimal cycle cost,
  \<^verbatim>\<open>TSP\<close> returns the lexicographically earliest of them. Two inputs show otherwise.

  With two waypoints and the symmetric matrix \<open>M[0][1] = M[1][2] = 1\<close>, \<open>M[0][2] = 2\<^sup>5\<^sup>3\<close>,
  both orders have the cycle cost \<open>2\<^sup>5\<^sup>3 + 2\<close>. Added in the order \<open>1, 2\<close> the sum is
  \<open>1, 2, 2\<^sup>5\<^sup>3 + 2\<close>; added in the order \<open>2, 1\<close> it is \<open>2\<^sup>5\<^sup>3\<close>, then twice \<open>2\<^sup>5\<^sup>3 + 1\<close> rounded
  back to \<open>2\<^sup>5\<^sup>3\<close>. The later order compares as cheaper and \<^verbatim>\<open>TSP\<close> returns it: \<open>[1, 0]\<close>,
  the order \<open>2, 1\<close>.

  With two waypoints and \<open>M[0][1] = M[0][2] = DBL_MAX\<close>, all other entries zero, both
  permutations cost \<^verbatim>\<open>DBL_MAX\<close>; neither is below the initial bound and \<^verbatim>\<open>TSP\<close> returns
  the empty route, not the earliest permutation \<open>[1, 2]\<close>.
\<close>

theorem TSP_keeps_first_minimum_counterexample:
  "length (points_to_visit example_task) = 2 * 2
   \<and> shape (2 + 1) reordering_weights
   \<and> cycle_cost reordering_weights [1, 2] = 2 ^ 53 + 2
   \<and> cycle_cost reordering_weights [2, 1] = 2 ^ 53 + 2
   \<and> TSP reordering_weights example_task = Inr [1, 0]
   \<and> map Suc [1, 0] \<noteq> [1, 2]
   \<and> shape (2 + 1) tied_weights
   \<and> cycle_cost tied_weights [1, 2] = DBL_MAX
   \<and> cycle_cost tied_weights [2, 1] = DBL_MAX
   \<and> TSP tied_weights example_task = Inr []
   \<and> map Suc [] \<noteq> [1, 2 :: nat]"
proof -
  have reordering: "TSP reordering_weights example_task = Inr [1, 0]"
    using DBL_MAX_above_2_54
    by (simp add: TSP_eval to_double_2_53 to_double_2_53_plus_1 to_double_2_53_plus_2
        example_task_def reordering_weights_def)
  have tied: "TSP tied_weights example_task = Inr []"
    by (simp add: TSP_eval example_task_def tied_weights_def)
  show ?thesis
    using reordering tied
    by (simp add: example_task_facts shape_def reordering_weights_def tied_weights_def
        cycle_cost_def)
qed

text \<open>
  Claim C6, amended. The cost of a tour is taken as \<^verbatim>\<open>TSP\<close> computes it, in double
  precision. For an \<open>(n+1) \<times> (n+1)\<close> matrix in which at least one tour has a computed cost
  less than \<^verbatim>\<open>DBL_MAX\<close>, the route \<^verbatim>\<open>TSP\<close> returns, read in the vertex labelling (each
  entry plus one), is a permutation than which none has a smaller computed cost, and it
  precedes or equals, in the lexicographic order, every permutation of the same computed
  cost: a later permutation of equal computed cost never replaces it.
\<close>

theorem TSP_keeps_first_minimum:
  assumes "length (points_to_visit t) = 2 * n"
    and "shape (n + 1) M"
    and "\<exists>p. mset p = mset [1..<n + 1] \<and> dless (computed_cost M p) (Finite DBL_MAX)"
  shows "\<exists>route. TSP M t = Inr route
           \<and> mset (map Suc route) = mset [1..<n + 1]
           \<and> (\<forall>v. mset v = mset [1..<n + 1] \<longrightarrow>
                 \<not> dless (computed_cost M v) (computed_cost M (map Suc route))
                 \<and> (computed_cost M v = computed_cost M (map Suc route)
                      \<longrightarrow> map Suc route \<le> v))"
proof -
  from TSP_spec[OF assms] obtain r where r: "TSP M t = Inr (map (\<lambda>element. element - 1) r)"
      "mset r = mset [1..<n + 1]"
      "\<forall>q. mset q = mset [1..<n + 1] \<longrightarrow> \<not> dless (computed_cost M q) (computed_cost M r)"
      "\<forall>q. mset q = mset [1..<n + 1] \<and> computed_cost M q = computed_cost M r \<longrightarrow> r \<le> q"
    by blast
  have "\<forall>v. mset v = mset [1..<n + 1] \<longrightarrow>
          \<not> dless (computed_cost M v) (computed_cost M r)
          \<and> (computed_cost M v = computed_cost M r \<longrightarrow> r \<le> v)"
    using r(3,4) by blast
  then show ?thesis
    using r(1,2)
    by (intro exI[of _ "map (\<lambda>element. element - 1) r"])
       (simp only: Suc_pred_tour[OF r(2)] simp_thms)
qed

text \<open>For \<open>example_weights\<close> both orders have the computed cost \<open>4\<close>, and the route
  returned is the earlier one.\<close>

theorem TSP_keeps_first_minimum_witness:
  "length (points_to_visit example_task) = 2 * 2
   \<and> shape (2 + 1) example_weights
   \<and> (\<exists>p. mset p = mset [1..<2 + 1] \<and> dless (computed_cost example_weights p) (Finite DBL_MAX))
   \<and> computed_cost example_weights [1, 2] = Finite 4
   \<and> computed_cost example_weights [2, 1] = Finite 4
   \<and> TSP example_weights example_task = Inr [0, 1]
   \<and> (\<exists>route. TSP example_weights example_task = Inr route
           \<and> mset (map Suc route) = mset [1..<2 + 1]
           \<and> (\<forall>v. mset v = mset [1..<2 + 1] \<longrightarrow>
                 \<not> dless (computed_cost example_weights v)
                      (computed_cost example_weights (map Suc route))
                 \<and> (computed_cost example_weights v
                      = computed_cost example_weights (map Suc route)
                      \<longrightarrow> map Suc route \<le> v)))"
proof -
  have c12: "computed_cost example_weights [1, 2] = Finite 4"
    by (simp add: cost_eval example_weights_def)
  have c21: "computed_cost example_weights [2, 1] = Finite 4"
    by (simp add: cost_eval example_weights_def)
  have res: "TSP example_weights example_task = Inr [0, 1]"
    using DBL_MAX_large by (simp add: TSP_eval example_task_def example_weights_def)
  show ?thesis
    by (intro conjI example_weights_facts c12 c21 res
        TSP_keeps_first_minimum[OF example_weights_facts])
qed




section \<open>Properties of the life cycle\<close>

lemmas life_cycle_eval = Host_init_def Task_ctor_def onUpdateParameters_def requestActivation_def
  onActivation_def requestDeactivation_def onDeactivation_def consume_VehicleState_def
  consume_PlanControlState_def consume_EstimatedState_def onMain_round_def sendPlan_def radians_def

lemma step_plan_sent:
  assumes "m_plan_sent (task h)"
  shows "\<exists>h'. step rng e h = Inr h' \<and> m_plan_sent (task h') \<and> dispatched h' = dispatched h
           \<and> m_plan_to_run (task h') = m_plan_to_run (task h)"
  using assms
  by (cases e)
     (simp_all add: onUpdateParameters_def requestActivation_def onActivation_def
        requestDeactivation_def onDeactivation_def consume_VehicleState_def
        consume_PlanControlState_def consume_EstimatedState_def onMain_round_def Let_def)

lemma run_plan_sent:
  "m_plan_sent (task h) \<Longrightarrow>
   \<exists>h'. run rng evs h = Inr h' \<and> m_plan_sent (task h') \<and> dispatched h' = dispatched h
           \<and> m_plan_to_run (task h') = m_plan_to_run (task h)"
proof (induction evs arbitrary: h)
  case Nil
  then show ?case by simp
next
  case (Cons e evs)
  from step_plan_sent[OF Cons.prems, of rng e]
  obtain h1 where h1: "step rng e h = Inr h1" "m_plan_sent (task h1)"
      "dispatched h1 = dispatched h" "m_plan_to_run (task h1) = m_plan_to_run (task h)"
    by blast
  from Cons.IH[OF h1(2)] show ?case using h1 by simp
qed

lemma step_dispatches_once:
  assumes "step rng e h = Inr h'"
  shows "dispatched h' = dispatched h \<or> (length (dispatched h') = length (dispatched h) + 1 \<and> m_plan_sent (task h'))"
  using assms
  by (cases e)
     (auto simp add: onUpdateParameters_def requestActivation_def onActivation_def
        requestDeactivation_def onDeactivation_def consume_VehicleState_def
        consume_PlanControlState_def consume_EstimatedState_def onMain_round_def Let_def sendPlan_def
        split: if_splits sum.splits)

lemma run_dispatches_at_most_once:
  "run rng evs h = Inr h' \<Longrightarrow> length (dispatched h') \<le> length (dispatched h) + 1"
proof (induction evs arbitrary: h)
  case Nil
  then show ?case by simp
next
  case (Cons e evs)
  then obtain h1 where h1: "step rng e h = Inr h1" "run rng evs h1 = Inr h'"
    by (auto split: sum.splits)
  from step_dispatches_once[OF h1(1)] show ?case
  proof
    assume "dispatched h1 = dispatched h"
    then show ?thesis using Cons.IH[OF h1(2)] by simp
  next
    assume a: "length (dispatched h1) = length (dispatched h) + 1 \<and> m_plan_sent (task h1)"
    then have "dispatched h' = dispatched h1" using run_plan_sent[of h1 rng evs] h1(2) by auto
    then show ?thesis using a by simp
  qed
qed

text \<open>An odd-length list marks the points invalid. While the task is inactive and its
  points are marked invalid, no event other than a reconfiguration with an even-length list
  changes that (an activation request is refused), and nothing is planned or sent.\<close>

lemma odd_configuration_marks_invalid:
  "odd (length pts) \<Longrightarrow> step rng (UpdateParameters pts) h = Inr h' \<Longrightarrow> \<not> m_PTV_ok (task h')"
  by (auto simp: onUpdateParameters_def odd_iff_mod_2_eq_one)

lemma step_invalid_inactive:
  assumes "\<not> active h" "\<not> m_PTV_ok (task h)" "\<forall>pts. e = UpdateParameters pts \<longrightarrow> odd (length pts)"
  shows "\<exists>h'. step rng e h = Inr h' \<and> \<not> active h' \<and> \<not> m_PTV_ok (task h')
           \<and> dispatched h' = dispatched h \<and> m_plan_to_run (task h') = m_plan_to_run (task h)"
  using assms
  by (cases e)
     (simp_all add: onUpdateParameters_def requestActivation_def onActivation_def
        requestDeactivation_def onDeactivation_def consume_VehicleState_def
        consume_PlanControlState_def consume_EstimatedState_def onMain_round_def Let_def
        odd_iff_mod_2_eq_one)

lemma run_invalid_inactive:
  "\<not> active h \<Longrightarrow> \<not> m_PTV_ok (task h) \<Longrightarrow>
   \<forall>e \<in> set evs. \<forall>pts. e = UpdateParameters pts \<longrightarrow> odd (length pts) \<Longrightarrow>
   \<exists>h'. run rng evs h = Inr h' \<and> \<not> active h' \<and> \<not> m_PTV_ok (task h')
           \<and> dispatched h' = dispatched h \<and> m_plan_to_run (task h') = m_plan_to_run (task h)"
proof (induction evs arbitrary: h)
  case Nil
  then show ?case by simp
next
  case (Cons e evs)
  have "\<forall>pts. e = UpdateParameters pts \<longrightarrow> odd (length pts)" using Cons.prems(3) by simp
  from step_invalid_inactive[OF Cons.prems(1,2) this, of rng]
  obtain h1 where h1: "step rng e h = Inr h1" "\<not> active h1" "\<not> m_PTV_ok (task h1)"
      "dispatched h1 = dispatched h" "m_plan_to_run (task h1) = m_plan_to_run (task h)"
    by blast
  have "\<forall>e \<in> set evs. \<forall>pts. e = UpdateParameters pts \<longrightarrow> odd (length pts)"
    using Cons.prems(3) by simp
  from Cons.IH[OF h1(2,3) this] show ?case using h1 by simp
qed

text \<open>
  Claim C4 says that once an odd-length list is configured, the points are marked invalid,
  activation is refused, and no distance matrix or plan is built in any later state until
  an even-length list is configured. When the odd-length list reaches a task that is
  already active, \<^verbatim>\<open>m_PTV_ok\<close> becomes false but the task stays active: the guard of
  \<^verbatim>\<open>onMain\<close> does not read \<^verbatim>\<open>m_PTV_ok\<close>, so the next round in service mode enters the
  planning branch and \<^verbatim>\<open>calculateWeights\<close> runs past the end of the odd-length list.
\<close>

theorem odd_reconfiguration_of_active_task_plans:
  "(case run manhattan odd_reconfiguration_trace (Host_init 0 0 0) of
      Inl e \<Rightarrow> False
    | Inr h \<Rightarrow> \<not> m_PTV_ok (task h) \<and> points_to_visit (task h) = [1, 2, 3] \<and> active h
               \<and> \<not> m_plan_sent (task h) \<and> m_vstate (task h) = VS_SERVICE)
   \<and> run manhattan (odd_reconfiguration_trace @ [MainLoop 0]) (Host_init 0 0 0) = Inl OutOfBounds"
  by (simp add: odd_reconfiguration_trace_def life_cycle_eval calculateWeights_eval manhattan_def)

text \<open>
  Claim C5 says that planning happens at most once per activation, that the flag
  \<^verbatim>\<open>m_plan_sent\<close> blocks it afterwards, and that a new plan is produced exactly when the
  task is activated again. After the first plan is sent, a deactivation, a new activation
  and a further round of the main loop in service mode leave the number of dispatched
  plans at one: nothing resets the flag.
\<close>

theorem plan_sent_blocks_planning_counterexample:
  "(case run manhattan first_plan_trace (Host_init 0 0 0) of
      Inl e \<Rightarrow> False
    | Inr h \<Rightarrow> length (dispatched h) = 1)
   \<and> (case run manhattan (first_plan_trace @ [Deactivation, Activation]) (Host_init 0 0 0) of
      Inl e \<Rightarrow> False
    | Inr h \<Rightarrow> active h \<and> m_vstate (task h) = VS_SERVICE \<and> length (dispatched h) = 1)
   \<and> (case run manhattan (first_plan_trace @ reactivation_trace) (Host_init 0 0 0) of
      Inl e \<Rightarrow> False
    | Inr h \<Rightarrow> length (dispatched h) = 1)"
  using DBL_MAX_large
  by (simp add: first_plan_trace_def reactivation_trace_def life_cycle_eval calculateWeights_eval
      TSP_eval createPlan_eval manhattan_def)

text \<open>
  Claim C5, amended. Planning happens at most once in the lifetime of the task. Once
  \<^verbatim>\<open>m_plan_sent\<close> is set, every sequence of events (re-activation included) runs without
  computing a matrix, solving, assembling or dispatching: the flag stays set, the stored
  plan and the dispatched requests stay as they are. From any state, any sequence of events
  dispatches at most one plan.
\<close>

theorem plan_sent_blocks_planning:
  "(m_plan_sent (task h) \<longrightarrow>
      (\<exists>h'. run rng evs h = Inr h' \<and> m_plan_sent (task h') \<and> dispatched h' = dispatched h
             \<and> m_plan_to_run (task h') = m_plan_to_run (task h)))
   \<and> (\<forall>h'. run rng evs h = Inr h' \<longrightarrow> length (dispatched h') \<le> length (dispatched h) + 1)"
  using run_plan_sent[of h rng evs] run_dispatches_at_most_once[of rng evs h] by blast

theorem plan_sent_blocks_planning_witness:
  "m_plan_sent (task (projr (run manhattan first_plan_trace (Host_init 0 0 0))))
   \<and> (\<exists>h'. run manhattan reactivation_trace (projr (run manhattan first_plan_trace (Host_init 0 0 0))) = Inr h'
          \<and> m_plan_sent (task h')
          \<and> dispatched h' = dispatched (projr (run manhattan first_plan_trace (Host_init 0 0 0)))
          \<and> m_plan_to_run (task h') = m_plan_to_run (task (projr (run manhattan first_plan_trace (Host_init 0 0 0))))
          \<and> length (dispatched h')
               \<le> length (dispatched (projr (run manhattan first_plan_trace (Host_init 0 0 0)))) + 1)"
proof -
  define h where "h = projr (run manhattan first_plan_trace (Host_init 0 0 0))"
  have sent: "m_plan_sent (task h)"
    unfolding h_def using DBL_MAX_large
    by (simp add: first_plan_trace_def life_cycle_eval calculateWeights_eval TSP_eval
        createPlan_eval manhattan_def)
  from plan_sent_blocks_planning[of h manhattan reactivation_trace] sent
  obtain h' where h': "run manhattan reactivation_trace h = Inr h'" "m_plan_sent (task h')"
      "dispatched h' = dispatched h" "m_plan_to_run (task h') = m_plan_to_run (task h)"
    by blast
  have "length (dispatched h') \<le> length (dispatched h) + 1"
    using plan_sent_blocks_planning[of h manhattan reactivation_trace] h'(1) by blast
  then show ?thesis using sent h' unfolding h_def by blast
qed

section \<open>createPlan on a non-empty route\<close>

text \<open>For a route of \<open>n \<ge> 1\<close> entries that index the coordinate list, \<^verbatim>\<open>createPlan\<close>
  appends \<open>n + 1\<close> maneuvers \<open>Goto0 \<dots> Goton\<close> and the \<open>n\<close> transitions
  \<open>Gotok \<rightarrow> Goto(k+1)\<close>. On a fresh plan the identifiers are pairwise distinct, every
  transition joins two consecutive maneuvers, the start reference is the first maneuver
  and the last maneuver targets the vehicle's position.\<close>

lemma size_minus_1_pos: "0 < n \<Longrightarrow> n < 2 ^ 64 \<Longrightarrow> size_minus_1 n = n - 1"
proof -
  assume n: "0 < n" "n < 2 ^ 64"
  then have "\<not> 2 ^ 64 dvd n" by (simp add: nat_dvd_not_less)
  then have "(word_of_nat n :: 64 word) \<noteq> 0" by (simp add: word_of_nat_eq_0_iff)
  then have "unat ((word_of_nat n :: 64 word) - 1) = unat (word_of_nat n :: 64 word) - 1"
    by (rule unat_minus_one)
  also have "unat (word_of_nat n :: 64 word) = n" using n by (simp add: unat_of_nat)
  finally show ?thesis by (simp add: size_minus_1_def)
qed

lemma dec_nonempty: "dec n \<noteq> []"
  by (subst dec.simps) simp

lemma digit_char_code: "d < 10 \<Longrightarrow> (of_char (digit_char d) :: nat) = 48 + d"
proof -
  assume "d < 10"
  then have "d \<in> {0, 1, 2, 3, 4, 5, 6, 7, 8, 9}" by auto
  then show ?thesis by (elim insertE emptyE) (simp_all add: digit_char_def)
qed

lemma digit_char_inj:
  assumes "d < 10" "e < 10" "digit_char d = digit_char e"
  shows "d = e"
proof -
  have "48 + d = (of_char (digit_char d) :: nat)" by (rule digit_char_code[OF assms(1), symmetric])
  also have "\<dots> = of_char (digit_char e)" by (simp only: assms(3))
  also have "\<dots> = 48 + e" by (rule digit_char_code[OF assms(2)])
  finally show ?thesis by simp
qed

lemma length_dec_small: "n < 10 \<Longrightarrow> length (dec n) = 1"
  by (simp add: dec_small)

lemma length_dec_big: "\<not> n < 10 \<Longrightarrow> 2 \<le> length (dec n)"
proof -
  assume "\<not> n < 10"
  then have "dec n = dec (n div 10) @ [digit_char (n mod 10)]" by (rule dec_big)
  then have "length (dec n) = length (dec (n div 10)) + 1" by simp
  moreover have "0 < length (dec (n div 10))" using dec_nonempty[of "n div 10"] by simp
  ultimately show ?thesis by linarith
qed

lemma dec_inj: "dec n = dec m \<Longrightarrow> n = m"
proof (induction n arbitrary: m rule: dec.induct)
  case (1 n)
  have len: "length (dec n) = length (dec m)" using "1.prems" by simp
  show ?case
  proof (cases "n < 10")
    case n: True
    show ?thesis
    proof (cases "m < 10")
      case True
      have "[digit_char n] = [digit_char m]"
        using "1.prems" dec_small[OF n] dec_small[OF True] by simp
      then show ?thesis using digit_char_inj[OF n True] by simp
    next
      case False
      then show ?thesis using len length_dec_small[OF n] length_dec_big[OF False] by simp
    qed
  next
    case n: False
    show ?thesis
    proof (cases "m < 10")
      case True
      then show ?thesis using len length_dec_small[OF True] length_dec_big[OF n] by simp
    next
      case False
      have "dec (n div 10) @ [digit_char (n mod 10)] = dec (m div 10) @ [digit_char (m mod 10)]"
        using "1.prems" dec_big[OF n] dec_big[OF False] by simp
      then have e: "dec (n div 10) = dec (m div 10)" "digit_char (n mod 10) = digit_char (m mod 10)"
        by simp_all
      have "n div 10 = m div 10" using "1.IH"[OF n e(1)] .
      moreover have "n mod 10 = m mod 10" using digit_char_inj[OF _ _ e(2)] by simp
      ultimately show ?thesis by (metis div_mult_mod_eq)
    qed
  qed
qed

lemma createPlan_spec:
  assumes b: "\<forall>x \<in> set indices. x * 2 + 1 < length (points_to_visit t)"
    and n: "0 < length indices" "length indices < 2 ^ 64"
  shows "createPlan indices t =
     Inr (t\<lparr>m_plan_to_run := (m_plan_to_run t)
        \<lparr>maneuvers := maneuvers (m_plan_to_run t)
             @ map (visit_maneuver (points_to_visit t) indices) [0..<length indices]
             @ [plan_maneuver (length indices) (goto_maneuver (m_auv_lat t) (m_auv_lon t))],
         transitions := transitions (m_plan_to_run t)
             @ map (\<lambda>k. plan_transition k (k + 1)) [0..<length indices],
         start_man_id := ''Goto'' @ dec 0\<rparr>\<rparr>)"
proof -
  have tr: "map (\<lambda>k. plan_transition (k - 1) k) [1..<length indices]
              @ [plan_transition (length indices - 1) (length indices)]
            = map (\<lambda>k. plan_transition k (k + 1)) [0..<length indices]"
  proof -
    have "map (\<lambda>k. plan_transition (k - 1) k) [1..<length indices]
              @ [plan_transition (length indices - 1) (length indices)]
          = map (\<lambda>k. plan_transition (k - 1) k) [1..<length indices + 1]"
    proof -
      have "1 \<le> length indices" using n(1) by linarith
      then have "[1..<length indices + 1] = [1..<length indices] @ [length indices]" by simp
      then show ?thesis by simp
    qed
    also have "\<dots> = map (\<lambda>k. plan_transition (k - 1) k) (map Suc [0..<length indices])"
      by (simp add: map_Suc_upt del: upt_Suc)
    also have "\<dots> = map (\<lambda>k. plan_transition k (k + 1)) [0..<length indices]"
      by simp
    finally show ?thesis .
  qed
  show ?thesis
    using n(1) tr
    by (simp add: createPlan_def createPlan_loop_spec[OF b] Let_def size_minus_1_pos[OF n])
qed

lemma createPlan_chain:
  assumes b: "\<forall>x \<in> set indices. x * 2 + 1 < length (points_to_visit t)"
    and n: "0 < length indices" "length indices < 2 ^ 64"
    and fresh: "maneuvers (m_plan_to_run t) = []" "transitions (m_plan_to_run t) = []"
  shows "\<exists>t'. createPlan indices t = Inr t'
     \<and> length (maneuvers (m_plan_to_run t')) = length indices + 1
     \<and> length (transitions (m_plan_to_run t')) = length indices
     \<and> distinct (map maneuver_id (maneuvers (m_plan_to_run t')))
     \<and> start_man_id (m_plan_to_run t') = maneuver_id (maneuvers (m_plan_to_run t') ! 0)
     \<and> (\<forall>k < length indices.
           source_man (transitions (m_plan_to_run t') ! k) = maneuver_id (maneuvers (m_plan_to_run t') ! k)
           \<and> dest_man (transitions (m_plan_to_run t') ! k) = maneuver_id (maneuvers (m_plan_to_run t') ! (k + 1))
           \<and> conditions (transitions (m_plan_to_run t') ! k) = ''ManeuverIsDone'')
     \<and> data (last (maneuvers (m_plan_to_run t'))) = goto_maneuver (m_auv_lat t) (m_auv_lon t)"
proof -
  define mans where "mans = map (visit_maneuver (points_to_visit t) indices) [0..<length indices]
             @ [plan_maneuver (length indices) (goto_maneuver (m_auv_lat t) (m_auv_lon t))]"
  define trs where "trs = map (\<lambda>k. plan_transition k (k + 1)) [0..<length indices]"
  define t' where "t' = t\<lparr>m_plan_to_run := (m_plan_to_run t)
        \<lparr>maneuvers := mans, transitions := trs, start_man_id := ''Goto'' @ dec 0\<rparr>\<rparr>"
  have r: "createPlan indices t = Inr t'"
    using createPlan_spec[OF b n] fresh by (simp add: t'_def mans_def trs_def)
  have ids: "map maneuver_id mans = map (\<lambda>k. ''Goto'' @ dec k) [0..<length indices + 1]"
    by (simp add: mans_def visit_maneuver_def plan_maneuver_def)
  have id_at: "maneuver_id (mans ! k) = ''Goto'' @ dec k" if "k < length indices + 1" for k
  proof -
    have "k < length mans" using that by (simp add: mans_def)
    then have "maneuver_id (mans ! k) = map maneuver_id mans ! k" by (rule nth_map[symmetric])
    also have "\<dots> = ''Goto'' @ dec k" unfolding ids using that by (simp del: upt_Suc)
    finally show ?thesis .
  qed
  have "inj (\<lambda>k. ''Goto'' @ dec k)" by (rule injI) (simp add: dec_inj)
  then have d: "distinct (map maneuver_id mans)"
    unfolding ids by (simp add: distinct_map inj_on_def del: upt_Suc)
  have tr_at: "trs ! k = plan_transition k (k + 1)" if "k < length indices" for k
    using that by (simp add: trs_def)
  have chain: "\<forall>k < length indices.
           source_man (trs ! k) = maneuver_id (mans ! k)
           \<and> dest_man (trs ! k) = maneuver_id (mans ! (k + 1))
           \<and> conditions (trs ! k) = ''ManeuverIsDone''"
    by (simp add: tr_at id_at plan_transition_def)
  have lens: "length mans = length indices + 1" "length trs = length indices"
    by (simp_all add: mans_def trs_def)
  have start: "''Goto'' @ dec 0 = maneuver_id (mans ! 0)" using id_at[of 0] by simp
  have lst: "data (last mans) = goto_maneuver (m_auv_lat t) (m_auv_lon t)"
    by (simp add: mans_def plan_maneuver_def)
  show ?thesis
    using r lens d start chain lst by (intro exI[of _ t']) (simp add: t'_def)
qed

lemma createPlan_accumulates:
  assumes b: "\<forall>x \<in> set indices. x * 2 + 1 < length (points_to_visit t)"
    and n: "0 < length indices" "length indices < 2 ^ 64"
  shows "\<exists>t'. createPlan indices t = Inr t'
     \<and> length (maneuvers (m_plan_to_run t')) = length (maneuvers (m_plan_to_run t)) + length indices + 1
     \<and> length (transitions (m_plan_to_run t')) = length (transitions (m_plan_to_run t)) + length indices
     \<and> take (length (maneuvers (m_plan_to_run t))) (maneuvers (m_plan_to_run t')) = maneuvers (m_plan_to_run t)
     \<and> take (length (transitions (m_plan_to_run t))) (transitions (m_plan_to_run t')) = transitions (m_plan_to_run t)
     \<and> plan_id (m_plan_to_run t') = plan_id (m_plan_to_run t)
     \<and> description (m_plan_to_run t') = description (m_plan_to_run t)"
  by (simp add: createPlan_spec[OF b n])

section \<open>createPlan on an empty route\<close>

text \<open>
  Claim C2 says that for a route of length \<open>n\<close>, \<open>n = 0\<close> included, the plan has \<open>n + 1\<close>
  directives and \<open>n\<close> transitions in one chain without dangling references. For the empty
  route on the freshly constructed task, the code appends the closing directive
  \<open>Goto0\<close> and, unconditionally, one transition whose source is
  \<^verbatim>\<open>indices.size() - 1\<close> wrapped around: the plan has one directive and one transition,
  from a maneuver \<open>Goto18446744073709551615\<close> that does not exist, and its start
  reference stays empty. The same plan is what the task dispatches when it runs with the
  default, empty list of points.
\<close>

theorem createPlan_empty_route:
  "createPlan [] (Task_ctor p la lo) =
     Inr ((Task_ctor p la lo)\<lparr>m_plan_to_run :=
        \<lparr>plan_id = ''PlanVisit'',
         description = ''Visiting given points in ini file in optimal order based on range'',
         start_man_id = [],
         maneuvers = [\<lparr>maneuver_id = ''Goto0'', data = goto_maneuver la lo\<rparr>],
         transitions = [\<lparr>source_man = ''Goto18446744073709551615'', dest_man = ''Goto0'',
                          conditions = ''ManeuverIsDone''\<rparr>]\<rparr>\<rparr>)
   \<and> map arg (dispatched (projr (run manhattan empty_configuration_trace (Host_init p la lo)))) =
       [\<lparr>plan_id = ''PlanVisit'',
         description = ''Visiting given points in ini file in optimal order based on range'',
         start_man_id = [],
         maneuvers = [\<lparr>maneuver_id = ''Goto0'', data = goto_maneuver la lo\<rparr>],
         transitions = [\<lparr>source_man = ''Goto18446744073709551615'', dest_man = ''Goto0'',
                          conditions = ''ManeuverIsDone''\<rparr>]\<rparr>]"
  using DBL_MAX_large
  by (simp add: empty_configuration_trace_def life_cycle_eval calculateWeights_eval TSP_eval
      createPlan_eval)

text \<open>
  Claim C9 says that a call with a route of length \<open>n\<close> adds \<open>n + 1\<close> maneuvers and \<open>n\<close>
  transitions to the stored plan and leaves \<^verbatim>\<open>plan_id\<close> and \<^verbatim>\<open>description\<close> alone.
  For the empty route, on any task state, the code adds one maneuver and one transition,
  not zero transitions.
\<close>

theorem createPlan_adds_transition_for_empty_route:
  "\<exists>t'. createPlan [] t = Inr t'
     \<and> length (maneuvers (m_plan_to_run t')) = length (maneuvers (m_plan_to_run t)) + 1
     \<and> length (transitions (m_plan_to_run t')) = length (transitions (m_plan_to_run t)) + 1
     \<and> plan_id (m_plan_to_run t') = plan_id (m_plan_to_run t)
     \<and> description (m_plan_to_run t') = description (m_plan_to_run t)"
  by (simp add: createPlan_def createPlan_loop.simps Let_def)

end
